theory Spec2Isabelle
  imports Main "HOL-Library.Multiset" "HOL-Library.AList"
begin

section \<open>Python values used by utils.py\<close>

text \<open>
  A tile is a pair of Python integers. A binary grid is a list of columns, each a list of
  integers (1 for a wall, 0 otherwise), indexed \<open>grid[x][y]\<close>.
\<close>

type_synonym tile = "int \<times> int"

text \<open>
  Python list indexing \<open>xs[i]\<close>: an index from \<open>-len(xs)\<close> to \<open>-1\<close> counts from the
  end, anything outside \<open>-len(xs) \<le> i < len(xs)\<close> raises IndexError (here \<open>None\<close>).
\<close>

definition pyGet :: "'a list \<Rightarrow> int \<Rightarrow> 'a option" where
  "pyGet xs i =
     (let n = int (length xs) in
      if 0 \<le> i \<and> i < n then Some (xs ! nat i)
      else if - n \<le> i \<and> i < 0 then Some (xs ! nat (n + i))
      else None)"

section \<open>Python errors and numbers\<close>

text \<open>
  The exceptions the modelled code can raise. A function that can raise returns
  \<open>error + 'a\<close>, \<open>Inl\<close> being the exception.
\<close>

datatype error = IndexError | ValueError | KeyError | OverflowError

text \<open>
  The numbers of the search are Python integers and Python floats: MAXDIST is the float
  \<open>10e9\<close>, and a sum or difference with it is a float. Every float that arises from
  integers and 1e10 by addition and subtraction has an integer value or is an infinity or
  NaN, so a float is modelled by its integer value (\<open>Fin\<close>; 0.0 and -0.0 are both
  \<open>Fin 0\<close>) or one of the three special values.
\<close>

datatype pyfloat = Fin int | PosInf | NegInf | NaN

datatype pynum = PInt int | PFloat pyfloat

text \<open>
  The double nearest to an integer, ties going to the even mantissa: integers up to
  2^53 in magnitude are doubles; a larger one keeps its 53 leading bits, rounded; a
  magnitude that rounds to 2^1024 or more is beyond the doubles (every magnitude from
  2^1024 on does). \<open>bitLength\<close> is the number of binary digits of a positive integer.
\<close>

function bitLength :: "int \<Rightarrow> nat" where
  "bitLength n = (if n \<le> 0 then 0 else Suc (bitLength (n div 2)))"
  by pat_completeness auto
termination
  by (relation "measure nat") auto

declare bitLength.simps [simp del]

definition roundDouble :: "int \<Rightarrow> pyfloat" where
  "roundDouble n =
     (if \<bar>n\<bar> \<le> 2 ^ 53 then Fin n
      else if \<bar>n\<bar> \<ge> 2 ^ 1024 then (if n > 0 then PosInf else NegInf)
      else
        (let a = \<bar>n\<bar>;
             e = bitLength a - 53;
             q = a div 2 ^ e;
             r = a mod 2 ^ e;
             half = 2 ^ (e - 1);
             q' = (if r > half \<or> (r = half \<and> odd q) then q + 1 else q);
             m = q' * 2 ^ e
         in if m \<ge> 2 ^ 1024 then (if n > 0 then PosInf else NegInf)
            else Fin (if n > 0 then m else - m)))"

text \<open>
  Addition of doubles (IEEE 754): the exact sum of two finite values is rounded, a sum
  beyond the doubles is an infinity, the two infinities add up to NaN. Subtraction adds
  the negated value.
\<close>

fun floatAdd :: "pyfloat \<Rightarrow> pyfloat \<Rightarrow> pyfloat" where
  "floatAdd (Fin a) (Fin b) = roundDouble (a + b)"
| "floatAdd NaN y = NaN"
| "floatAdd x NaN = NaN"
| "floatAdd PosInf NegInf = NaN"
| "floatAdd NegInf PosInf = NaN"
| "floatAdd PosInf y = PosInf"
| "floatAdd NegInf y = NegInf"
| "floatAdd (Fin a) y = y"

fun floatNeg :: "pyfloat \<Rightarrow> pyfloat" where
  "floatNeg (Fin a) = Fin (- a)"
| "floatNeg PosInf = NegInf"
| "floatNeg NegInf = PosInf"
| "floatNeg NaN = NaN"

text \<open>
  \<open>x + y\<close> and \<open>x - y\<close> on Python numbers: exact on two integers; otherwise an
  integer operand is converted to a float first, which raises OverflowError when the
  integer is beyond the doubles, and the operation is the one of doubles.
\<close>

definition toFloat :: "pynum \<Rightarrow> error + pyfloat" where
  "toFloat x =
     (case x of
        PFloat f \<Rightarrow> Inr f
      | PInt n \<Rightarrow> (case roundDouble n of Fin m \<Rightarrow> Inr (Fin m) | _ \<Rightarrow> Inl OverflowError))"

definition floatOp :: "(pyfloat \<Rightarrow> pyfloat \<Rightarrow> pyfloat) \<Rightarrow> pynum \<Rightarrow> pynum \<Rightarrow> error + pynum" where
  "floatOp f x y =
     (case toFloat x of
        Inl e \<Rightarrow> Inl e
      | Inr fx \<Rightarrow> (case toFloat y of Inl e \<Rightarrow> Inl e | Inr fy \<Rightarrow> Inr (PFloat (f fx fy))))"

fun pyAdd :: "pynum \<Rightarrow> pynum \<Rightarrow> error + pynum" where
  "pyAdd (PInt a) (PInt b) = Inr (PInt (a + b))"
| "pyAdd x y = floatOp floatAdd x y"

fun pySub :: "pynum \<Rightarrow> pynum \<Rightarrow> error + pynum" where
  "pySub (PInt a) (PInt b) = Inr (PInt (a - b))"
| "pySub x y = floatOp (\<lambda>fx fy. floatAdd fx (floatNeg fy)) x y"

text \<open>
  Python compares an integer and a float by their exact values; NaN is neither greater
  nor less than anything nor equal to anything, itself included.
\<close>

fun valOf :: "pynum \<Rightarrow> pyfloat" where
  "valOf (PInt a) = Fin a"
| "valOf (PFloat f) = f"

fun floatLt :: "pyfloat \<Rightarrow> pyfloat \<Rightarrow> bool" where
  "floatLt (Fin a) (Fin b) = (a < b)"
| "floatLt NaN y = False"
| "floatLt x NaN = False"
| "floatLt NegInf y = (y \<noteq> NegInf)"
| "floatLt PosInf y = False"
| "floatLt (Fin a) y = (y = PosInf)"

definition pyGt :: "pynum \<Rightarrow> pynum \<Rightarrow> bool" where
  "pyGt x y = floatLt (valOf y) (valOf x)"

definition pyEq :: "pynum \<Rightarrow> pynum \<Rightarrow> bool" where
  "pyEq x y = (valOf x = valOf y \<and> valOf x \<noteq> NaN)"

text \<open>
  A dictionary whose keys are numbers, kept in insertion order: a key is found when it
  is equal as a number (2 and 2.0 are the same key, and hash alike); an assignment to a
  key that is found replaces the value and keeps the stored key, any other appends. A NaN
  computed afresh is never found.
\<close>

fun dictGet :: "(pynum \<times> 'v) list \<Rightarrow> pynum \<Rightarrow> 'v option" where
  "dictGet [] k = None"
| "dictGet ((k', v) # d) k = (if pyEq k' k then Some v else dictGet d k)"

fun dictSet :: "pynum \<Rightarrow> 'v \<Rightarrow> (pynum \<times> 'v) list \<Rightarrow> (pynum \<times> 'v) list" where
  "dictSet k v [] = [(k, v)]"
| "dictSet k v ((k', v') # d) = (if pyEq k' k then (k', v) # d else (k', v') # dictSet k v d)"

section \<open>PathFinder\<close>

text \<open>utils.py, getManhattanDist.\<close>

definition getManhattanDist :: "tile \<Rightarrow> tile \<Rightarrow> int" where
  "getManhattanDist start end = \<bar>fst end - fst start\<bar> + \<bar>snd end - snd start\<bar>"

text \<open>
  utils.py, getFreeNeighbours: the four neighbours in the order up, right, down, left;
  a neighbour is dropped when \<open>grid[nx][ny]\<close> raises IndexError, and kept when the value
  read is 0.
\<close>

definition isFree :: "int list list \<Rightarrow> tile \<Rightarrow> bool" where
  "isFree grid n =
     (case pyGet grid (fst n) of
        None \<Rightarrow> False
      | Some col \<Rightarrow> (case pyGet col (snd n) of None \<Rightarrow> False | Some isWall \<Rightarrow> isWall = 0))"

definition getFreeNeighbours :: "tile \<Rightarrow> int list list \<Rightarrow> tile list" where
  "getFreeNeighbours tile grid =
     filter (isFree grid)
       [(fst tile, snd tile - 1), (fst tile + 1, snd tile),
        (fst tile, snd tile + 1), (fst tile - 1, snd tile)]"

text \<open>
  Modelled from the spec: classes.py, which declares AStarNode, is not among the sources.
  A node holds its parent, its tile, the path cost g so far and the heuristic value h,
  as the constructor calls of aStarSearch pass them. The spec orders the frontier by
  lowest estimated total cost, path cost so far plus heuristic, so \<open>a < b\<close> on nodes
  compares g + h.
\<close>

datatype AStarNode = AStarNode (aParent: "AStarNode option") (aLoc: tile) (aG: int) (aH: int)

definition node_lt :: "AStarNode \<Rightarrow> AStarNode \<Rightarrow> bool" where
  "node_lt a b = (aG a + aH a < aG b + aH b)"

subsection \<open>The binary heap of heapq\<close>

text \<open>
  heapq keeps the frontier in a Python list ordered as a binary heap. \<open>_siftdown\<close>
  moves the item stored at \<open>pos\<close> towards the root while it is smaller than its
  parent; the item is carried in \<open>newitem\<close> and written back when the loop stops.
\<close>

function siftdown :: "AStarNode list \<Rightarrow> AStarNode \<Rightarrow> nat \<Rightarrow> nat \<Rightarrow> AStarNode list" where
  "siftdown heap newitem startpos pos =
     (if pos > startpos then
        (let parentpos = (pos - 1) div 2; parent = heap ! parentpos in
         if node_lt newitem parent then siftdown (heap[pos := parent]) newitem startpos parentpos
         else heap[pos := newitem])
      else heap[pos := newitem])"
  by pat_completeness auto
termination
  by (relation "measure (\<lambda>(heap, newitem, startpos, pos). pos)") auto

declare siftdown.simps [simp del]

text \<open>
  \<open>_siftup\<close> first bubbles the smaller child up until a leaf is reached
  (\<open>siftup_loop\<close> returns the list and the leaf position), then writes the item at the
  leaf and sifts it down again.
\<close>

function siftup_loop :: "AStarNode list \<Rightarrow> nat \<Rightarrow> nat \<Rightarrow> AStarNode list \<times> nat" where
  "siftup_loop heap pos endpos =
     (let childpos = 2 * pos + 1 in
      if childpos < endpos then
        (let rightpos = childpos + 1;
             childpos' = (if rightpos < endpos \<and> \<not> node_lt (heap ! childpos) (heap ! rightpos)
                          then rightpos else childpos)
         in siftup_loop (heap[pos := heap ! childpos']) childpos' endpos)
      else (heap, pos))"
  by pat_completeness auto
termination
  by (relation "measure (\<lambda>(heap, pos, endpos). endpos - pos)") auto

declare siftup_loop.simps [simp del]

definition siftup :: "AStarNode list \<Rightarrow> nat \<Rightarrow> AStarNode list" where
  "siftup heap pos =
     (let newitem = heap ! pos;
          (heap', pos') = siftup_loop heap pos (length heap)
      in siftdown (heap'[pos' := newitem]) newitem pos pos')"

text \<open>
  \<open>heappush\<close> appends and sifts down from the last position. \<open>heappop\<close> removes the
  last element; when the list is not empty afterwards, it returns the root and puts the
  removed element in its place. aStarSearch calls it only on a non-empty list.
\<close>

definition heappush :: "AStarNode list \<Rightarrow> AStarNode \<Rightarrow> AStarNode list" where
  "heappush heap item = siftdown (heap @ [item]) item 0 (length heap)"

definition heappop :: "AStarNode list \<Rightarrow> AStarNode \<times> AStarNode list" where
  "heappop heap =
     (let lastelt = last heap; heap' = butlast heap in
      if heap' \<noteq> [] then (heap' ! 0, siftup (heap'[0 := lastelt]) 0)
      else (lastelt, heap'))"

subsection \<open>The heap operations keep the elements\<close>

lemma mset_shift:
  "i < length h \<Longrightarrow> j < length h \<Longrightarrow> i \<noteq> j \<Longrightarrow> mset (h[i := h ! j, j := x]) = mset (h[i := x])"
  by (simp add: mset_update)

lemma mset_siftdown:
  "pos < length heap \<Longrightarrow> mset (siftdown heap newitem startpos pos) = mset (heap[pos := newitem])"
proof (induction heap newitem startpos pos rule: siftdown.induct)
  case (1 heap newitem startpos pos)
  show ?case
  proof (cases "pos > startpos \<and> node_lt newitem (heap ! ((pos - 1) div 2))")
    case True
    let ?pp = "(pos - 1) div 2"
    have pp: "?pp < pos" using True by auto
    have "mset (siftdown (heap[pos := heap ! ?pp]) newitem startpos ?pp)
          = mset (heap[pos := heap ! ?pp, ?pp := newitem])"
      using "1.IH"[of ?pp "heap ! ?pp"] True "1.prems" pp by simp
    also have "\<dots> = mset (heap[pos := newitem])"
      using "1.prems" pp by (intro mset_shift) auto
    finally have r: "mset (siftdown (heap[pos := heap ! ?pp]) newitem startpos ?pp) = mset (heap[pos := newitem])" .
    have "siftdown heap newitem startpos pos = siftdown (heap[pos := heap ! ?pp]) newitem startpos ?pp"
      using True by (subst siftdown.simps) (simp add: Let_def)
    then show ?thesis using r by simp
  next
    case False
    have "siftdown heap newitem startpos pos = heap[pos := newitem]"
      using False by (subst siftdown.simps) (auto simp: Let_def)
    then show ?thesis by simp
  qed
qed


lemma siftup_loop_inv:
  "siftup_loop heap pos endpos = (heap', pos') \<Longrightarrow> pos < length heap \<Longrightarrow> endpos \<le> length heap \<Longrightarrow>
     pos' < length heap' \<and> mset (heap'[pos' := x]) = mset (heap[pos := x])"
proof (induction heap pos endpos arbitrary: heap' pos' rule: siftup_loop.induct)
  case (1 heap pos endpos)
  show ?case
  proof (cases "2 * pos + 1 < endpos")
    case True
    define cp where "cp = (if 2 * pos + 1 + 1 < endpos \<and> \<not> node_lt (heap ! (2 * pos + 1)) (heap ! (2 * pos + 1 + 1))
                          then 2 * pos + 1 + 1 else 2 * pos + 1)"
    have cp: "pos < cp" "cp < endpos" using True by (auto simp: cp_def)
    have unf: "siftup_loop heap pos endpos = siftup_loop (heap[pos := heap ! cp]) cp endpos"
      using True by (subst siftup_loop.simps) (simp add: Let_def cp_def)
    have rec: "siftup_loop (heap[pos := heap ! cp]) cp endpos = (heap', pos')"
      using "1.prems"(1) unf by simp
    have ih: "pos' < length heap' \<and> mset (heap'[pos' := x]) = mset (heap[pos := heap ! cp, cp := x])"
      using "1.IH"[of "2 * pos + 1" "2 * pos + 1 + 1" cp heap' pos'] True rec cp "1.prems" cp_def by simp
    have "mset (heap[pos := heap ! cp, cp := x]) = mset (heap[pos := x])"
      using "1.prems" cp by (intro mset_shift) auto
    then show ?thesis using ih by simp
  next
    case False
    have "siftup_loop heap pos endpos = (heap, pos)"
      using False by (subst siftup_loop.simps) (simp add: Let_def)
    then show ?thesis using "1.prems" by simp
  qed
qed

lemma mset_heappush: "mset (heappush heap item) = add_mset item (mset heap)"
  by (simp add: heappush_def mset_siftdown)

lemma mset_heappop:
  assumes "heap \<noteq> []" "heappop heap = (x, rest)"
  shows "mset heap = add_mset x (mset rest)"
proof -
  obtain hs l where heap: "heap = hs @ [l]" using assms(1) by (metis rev_exhaust)
  show ?thesis
  proof (cases "hs = []")
    case True
    then show ?thesis using assms(2) heap by (simp add: heappop_def)
  next
    case False
    let ?h = "hs[0 := l]"
    obtain h2 p2 where sl: "siftup_loop ?h 0 (length ?h) = (h2, p2)" by fastforce
    have inv: "p2 < length h2 \<and> mset (h2[p2 := l]) = mset (?h[0 := l])"
      using siftup_loop_inv[OF sl, of l] False by simp
    have r: "rest = siftdown (h2[p2 := l]) l 0 p2" and x: "x = hs ! 0"
      using assms(2) heap False sl by (auto simp: heappop_def siftup_def Let_def)
    have "mset rest = mset ?h" using r inv by (simp add: mset_siftdown)
    moreover have "add_mset (hs ! 0) (mset ?h) = add_mset l (mset hs)"
      using False by (cases hs) auto
    ultimately show ?thesis using x heap by simp
  qed
qed

subsection \<open>aStarSearch\<close>

text \<open>
  When the goal is popped, the path is rebuilt by following the parents, each tile
  inserted at the front.
\<close>

fun tracePath :: "AStarNode option \<Rightarrow> tile list \<Rightarrow> tile list" where
  "tracePath None path = path"
| "tracePath (Some (AStarNode parent loc g h)) path = tracePath parent (loc # path)"

text \<open>
  MAXDIST is written \<open>10e9\<close> in utils.py: the float 1e10. Every other distance is the
  integer g of a node.
\<close>

definition MAXDIST :: pynum where
  "MAXDIST = PFloat (Fin 10000000000)"

text \<open>
  The inner loop of aStarSearch: a neighbour already in \<open>visited\<close> is skipped, any other
  is pushed with the current node as parent and g increased by one.
\<close>

fun pushNeighbours ::
  "(tile \<Rightarrow> tile \<Rightarrow> int) \<Rightarrow> tile \<Rightarrow> AStarNode \<Rightarrow> tile set \<Rightarrow> tile list \<Rightarrow> AStarNode list
     \<Rightarrow> AStarNode list" where
  "pushNeighbours heuristicFn end currentNode visited [] pq = pq"
| "pushNeighbours heuristicFn end currentNode visited (neighbour # rest) pq =
     (if neighbour \<in> visited then pushNeighbours heuristicFn end currentNode visited rest pq
      else pushNeighbours heuristicFn end currentNode visited rest
             (heappush pq (AStarNode (Some currentNode) neighbour (aG currentNode + 1)
                             (heuristicFn neighbour end))))"

text \<open>
  Termination of the main loop. The tiles getFreeNeighbours can return are those whose
  lookup succeeds and reads 0: finitely many. A node of the frontier is ranked by the
  number of such tiles not yet visited, and one more when its own tile is visited or
  not such a tile. Popping a node replaces it by at most four nodes of lower rank and
  never raises the rank of another, so the sum of 5 ^ rank decreases.
\<close>

definition freeTiles :: "int list list \<Rightarrow> tile set" where
  "freeTiles grid = {p. isFree grid p}"

lemma pyGet_Some_range: "pyGet xs i = Some v \<Longrightarrow> - int (length xs) \<le> i \<and> i < int (length xs)"
  by (auto simp: pyGet_def Let_def split: if_splits)

lemma pyGet_Some_mem: "pyGet xs i = Some v \<Longrightarrow> v \<in> set xs"
  by (auto simp: pyGet_def Let_def split: if_splits)

lemma finite_freeTiles: "finite (freeTiles grid)"
proof -
  let ?W = "int (length grid)"
  let ?M = "int (sum_list (map length grid))"
  have "freeTiles grid \<subseteq> {- ?W .. ?W} \<times> {- ?M .. ?M}"
  proof
    fix p assume "p \<in> freeTiles grid"
    then have f: "isFree grid p" by (simp add: freeTiles_def)
    then obtain col where c: "pyGet grid (fst p) = Some col"
      by (auto simp: isFree_def split: option.splits)
    then obtain w where w: "pyGet col (snd p) = Some w"
      using f by (auto simp: isFree_def split: option.splits)
    have "col \<in> set grid" using c by (rule pyGet_Some_mem)
    then have "length col \<le> sum_list (map length grid)"
      by (simp add: member_le_sum_list)
    then show "p \<in> {- ?W .. ?W} \<times> {- ?M .. ?M}"
      using pyGet_Some_range[OF c] pyGet_Some_range[OF w] by (cases p) auto
  qed
  then show ?thesis by (rule finite_subset) simp
qed

definition aRank :: "int list list \<Rightarrow> tile set \<Rightarrow> AStarNode \<Rightarrow> nat" where
  "aRank grid visited n =
     2 * card (freeTiles grid - visited) + (if aLoc n \<in> freeTiles grid - visited then 0 else 1)"

definition aWeight :: "int list list \<Rightarrow> tile set \<Rightarrow> AStarNode list \<Rightarrow> nat" where
  "aWeight grid visited pq = sum_list (map (\<lambda>n. 5 ^ aRank grid visited n) pq)"

lemma sum_list_map_mset_cong: "mset xs = mset ys \<Longrightarrow> sum_list (map f xs) = sum_list (map (f :: 'a \<Rightarrow> nat) ys)"
  by (metis mset_map sum_mset_sum_list)

lemma mset_pushNeighbours:
  "mset (pushNeighbours hf e cur visited ns pq) =
     mset pq + mset (map (\<lambda>n. AStarNode (Some cur) n (aG cur + 1) (hf n e)) (filter (\<lambda>n. n \<notin> visited) ns))"
  by (induction ns arbitrary: pq) (auto simp: mset_heappush)

lemma set_getFreeNeighbours: "n \<in> set (getFreeNeighbours t grid) \<Longrightarrow> n \<in> freeTiles grid"
  unfolding getFreeNeighbours_def freeTiles_def
  by (auto simp only: set_filter mem_Collect_eq)

lemma length_getFreeNeighbours: "length (getFreeNeighbours t grid) \<le> 4"
  unfolding getFreeNeighbours_def
  by (rule order_trans[OF length_filter_le]) simp

lemma aRank_mono: "aRank grid (insert x visited) n \<le> aRank grid visited n"
proof -
  let ?R = "freeTiles grid"
  have fin: "finite (?R - visited)" using finite_freeTiles by simp
  have sub: "?R - insert x visited \<subseteq> ?R - visited" by auto
  have le: "card (?R - insert x visited) \<le> card (?R - visited)"
    using sub fin by (rule card_mono[rotated])
  show ?thesis
  proof (cases "aLoc n \<in> ?R - visited \<and> aLoc n \<notin> ?R - insert x visited")
    case True
    then have x: "x = aLoc n" "x \<in> ?R - visited" by auto
    have "?R - insert x visited = (?R - visited) - {x}" by auto
    then have "card (?R - insert x visited) = card (?R - visited) - 1"
      using x fin by simp
    moreover have "card (?R - visited) > 0" using x fin by (auto simp: card_gt_0_iff)
    moreover have "aRank grid (insert x visited) n = 2 * card (?R - insert x visited) + 1"
      using True unfolding aRank_def by (simp only: if_False)
    moreover have "aRank grid visited n = 2 * card (?R - visited)"
      using True unfolding aRank_def by (simp only: if_True)
    ultimately show ?thesis by arith
  next
    case False
    then show ?thesis using le unfolding aRank_def by (auto split: if_splits)
  qed
qed

lemma aRank_child:
  assumes "c \<in> freeTiles grid" "c \<notin> insert (aLoc cur) visited" "aLoc m = c"
  shows "aRank grid (insert (aLoc cur) visited) m < aRank grid visited cur"
proof -
  let ?R = "freeTiles grid"
  let ?x = "aLoc cur"
  have fin: "finite (?R - visited)" using finite_freeTiles by simp
  have r: "aRank grid (insert ?x visited) m = 2 * card (?R - insert ?x visited)"
    using assms by (simp add: aRank_def)
  show ?thesis
  proof (cases "?x \<in> ?R - visited")
    case True
    have "?R - insert ?x visited = (?R - visited) - {?x}" by auto
    then have "card (?R - insert ?x visited) = card (?R - visited) - 1"
      using True fin by simp
    moreover have "card (?R - visited) > 0" using True fin by (auto simp: card_gt_0_iff)
    ultimately show ?thesis using True r by (simp add: aRank_def)
  next
    case False
    then have "?R - insert ?x visited = ?R - visited" by auto
    then show ?thesis using False r by (simp add: aRank_def)
  qed
qed

lemma sum_list_bound: "\<forall>x\<in>set xs. f x \<le> (b::nat) \<Longrightarrow> sum_list (map f xs) \<le> length xs * b"
  by (induction xs) (auto simp: add_mono)

lemma aWeight_decreases:
  assumes ne: "pq \<noteq> []" and pop: "heappop pq = (cur, pq1)"
  shows "aWeight grid (insert (aLoc cur) visited)
           (pushNeighbours hf e cur (insert (aLoc cur) visited) (getFreeNeighbours (aLoc cur) grid) pq1)
         < aWeight grid visited pq"
proof -
  let ?V1 = "insert (aLoc cur) visited"
  let ?ns = "filter (\<lambda>n. n \<notin> ?V1) (getFreeNeighbours (aLoc cur) grid)"
  let ?mk = "\<lambda>n. AStarNode (Some cur) n (aG cur + 1) (hf n e)"
  let ?w1 = "\<lambda>n. (5::nat) ^ aRank grid ?V1 n"
  let ?w = "\<lambda>n. (5::nat) ^ aRank grid visited n"
  let ?r = "aRank grid visited cur"
  have m: "mset pq = mset (cur # pq1)" using mset_heappop[OF ne pop] by simp
  have old: "aWeight grid visited pq = ?w cur + sum_list (map ?w pq1)"
    unfolding aWeight_def using sum_list_map_mset_cong[OF m, of ?w] by simp
  have m2: "mset (pushNeighbours hf e cur ?V1 (getFreeNeighbours (aLoc cur) grid) pq1)
            = mset (pq1 @ map ?mk ?ns)"
    by (simp add: mset_pushNeighbours)
  have new: "aWeight grid ?V1 (pushNeighbours hf e cur ?V1 (getFreeNeighbours (aLoc cur) grid) pq1)
             = sum_list (map ?w1 pq1) + sum_list (map ?w1 (map ?mk ?ns))"
    unfolding aWeight_def using sum_list_map_mset_cong[OF m2, of ?w1] by simp
  have rest: "sum_list (map ?w1 pq1) \<le> sum_list (map ?w pq1)"
    by (rule sum_list_mono) (simp add: aRank_mono)
  have rpos: "?r > 0"
    unfolding aRank_def using finite_freeTiles[of grid] by (auto simp: card_gt_0_iff)
  have child: "\<forall>m\<in>set (map ?mk ?ns). ?w1 m \<le> 5 ^ (?r - 1)"
  proof
    fix m assume "m \<in> set (map ?mk ?ns)"
    then obtain c where c: "c \<in> set ?ns" "m = ?mk c" by auto
    then have "c \<in> freeTiles grid" "c \<notin> ?V1" "aLoc m = c"
      using set_getFreeNeighbours[of c "aLoc cur" grid] by auto
    then have "aRank grid ?V1 m < ?r" by (rule aRank_child)
    then have "aRank grid ?V1 m \<le> ?r - 1" by simp
    then show "?w1 m \<le> 5 ^ (?r - 1)" by (simp add: power_increasing)
  qed
  have "sum_list (map ?w1 (map ?mk ?ns)) \<le> length (map ?mk ?ns) * 5 ^ (?r - 1)"
    using child by (rule sum_list_bound)
  also have "\<dots> \<le> 4 * 5 ^ (?r - 1)"
    using length_getFreeNeighbours[of "aLoc cur" grid]
    by (simp add: order_trans[OF length_filter_le])
  also have "\<dots> < 5 * 5 ^ (?r - 1)" by simp
  also have "\<dots> = ?w cur" using rpos by (cases ?r) auto
  finally have "sum_list (map ?w1 (map ?mk ?ns)) < ?w cur" .
  then show ?thesis using old new rest by linarith
qed

text \<open>
  The main loop, on the frontier and the visited set. The empty frontier gives the
  sentinel distance and the empty path (the source prints a warning there).
\<close>

function aStarLoop ::
  "tile \<Rightarrow> int list list \<Rightarrow> (tile \<Rightarrow> tile \<Rightarrow> int) \<Rightarrow> AStarNode list \<Rightarrow> tile set
     \<Rightarrow> pynum \<times> tile list" where
  "aStarLoop end binGrid heuristicFn pq visited =
     (if pq = [] then (MAXDIST, [])
      else (let (currentNode, pq1) = heappop pq;
                visited1 = insert (aLoc currentNode) visited
            in if aLoc currentNode = end
               then (PInt (aG currentNode), tracePath (Some currentNode) [])
               else aStarLoop end binGrid heuristicFn
                      (pushNeighbours heuristicFn end currentNode visited1
                         (getFreeNeighbours (aLoc currentNode) binGrid) pq1)
                      visited1))"
  by pat_completeness auto
termination
proof (relation "measure (\<lambda>(e, binGrid, hf, pq, visited). aWeight binGrid visited pq)", goal_cases)
  case 1
  show ?case by simp
next
  case (2 e binGrid hf pq visited x cur pq1 visited1)
  then show ?case using aWeight_decreases[of pq cur pq1 binGrid visited hf e] by simp
qed

declare aStarLoop.simps [simp del]

definition aStarSearch ::
  "tile \<Rightarrow> tile \<Rightarrow> int list list \<Rightarrow> (tile \<Rightarrow> tile \<Rightarrow> int) \<Rightarrow> pynum \<times> tile list" where
  "aStarSearch start end binGrid heuristicFn =
     aStarLoop end binGrid heuristicFn (heappush [] (AStarNode None start 0 (heuristicFn start end))) {}"

section \<open>Python indexing and strings\<close>

text \<open>
  The position a Python index denotes in a list, or \<open>None\<close> for IndexError, and the
  assignment \<open>grid[x][y] = v\<close> on a list of lists whose columns are separate lists.
\<close>

definition pyIndex :: "'a list \<Rightarrow> int \<Rightarrow> nat option" where
  "pyIndex xs i =
     (let n = int (length xs) in
      if 0 \<le> i \<and> i < n then Some (nat i)
      else if - n \<le> i \<and> i < 0 then Some (nat (n + i))
      else None)"

definition pySet2 :: "'a list list \<Rightarrow> int \<Rightarrow> int \<Rightarrow> 'a \<Rightarrow> error + 'a list list" where
  "pySet2 grid x y v =
     (case pyIndex grid x of
        None \<Rightarrow> Inl IndexError
      | Some i \<Rightarrow>
          (case pyIndex (grid ! i) y of
             None \<Rightarrow> Inl IndexError
           | Some j \<Rightarrow> Inr (grid[i := (grid ! i)[j := v]])))"

text \<open>
  A string is a list of characters with code points below 256; text with other code
  points is outside the model. Among these, \<open>str.split\<close> and \<open>str.isspace\<close> take the
  code points 9 to 13, 28 to 31, 32, 133 and 160 for whitespace.

  \<open>int(s)\<close> on a string: surrounding whitespace is dropped, where \<open>int\<close> does not count
  28 to 31 as whitespace; one sign is allowed; then decimal digits follow, where single
  underscores may stand between digits. More than 4300 digits (underscores and the sign
  not counted) are refused. Anything else raises ValueError (\<open>None\<close>) as well.
\<close>

definition isSpace :: "char \<Rightarrow> bool" where
  "isSpace c = (of_char c \<in> {9, 10, 11, 12, 13, 28, 29, 30, 31, 32, 133, 160 :: nat})"

definition isIntSpace :: "char \<Rightarrow> bool" where
  "isIntSpace c = (of_char c \<in> {9, 10, 11, 12, 13, 32, 133, 160 :: nat})"

definition isDigit :: "char \<Rightarrow> bool" where
  "isDigit c = (48 \<le> (of_char c :: nat) \<and> (of_char c :: nat) \<le> 57)"

definition strip :: "string \<Rightarrow> string" where
  "strip s = rev (dropWhile isIntSpace (rev (dropWhile isIntSpace s)))"

fun digitsOk :: "string \<Rightarrow> bool" where
  "digitsOk [] = False"
| "digitsOk [c] = isDigit c"
| "digitsOk (c # d # cs) =
     (isDigit c \<and> (if d = CHR ''_'' then digitsOk cs else digitsOk (d # cs)))"

definition digitsVal :: "string \<Rightarrow> int" where
  "digitsVal s = foldl (\<lambda>acc c. 10 * acc + (int (of_char c) - 48)) 0 (filter isDigit s)"

definition pyInt :: "string \<Rightarrow> int option" where
  "pyInt s =
     (let t = strip s;
          neg = (t \<noteq> [] \<and> hd t = CHR ''-'');
          body = (if t \<noteq> [] \<and> (hd t = CHR ''-'' \<or> hd t = CHR ''+'') then tl t else t)
      in if digitsOk body \<and> length (filter isDigit body) \<le> 4300
         then Some (if neg then - digitsVal body else digitsVal body)
         else None)"

text \<open>\<open>line.split()\<close>: the maximal runs of characters that are not whitespace.\<close>

fun splitLoop :: "string \<Rightarrow> string \<Rightarrow> string list" where
  "splitLoop [] word = (if word = [] then [] else [word])"
| "splitLoop (c # cs) word =
     (if isSpace c then (if word = [] then splitLoop cs [] else word # splitLoop cs [])
      else splitLoop cs (word @ [c]))"

definition split :: "string \<Rightarrow> string list" where
  "split line = splitLoop line []"


text \<open>
  \<open>re.sub(target, "", s)\<close> for a target without regular-expression operators (findAll
  is called with A, C and SD only): every occurrence of the target, found from left to
  right without overlap, is removed.
\<close>

function reSub :: "string \<Rightarrow> string \<Rightarrow> string" where
  "reSub target s =
     (if target = [] \<or> s = [] then s
      else if take (length target) s = target then reSub target (drop (length target) s)
      else hd s # reSub target (tl s))"
  by pat_completeness auto
termination
  by (relation "measure (\<lambda>(target, s). length s)") auto

declare reSub.simps [simp del]

section \<open>GridModel\<close>

text \<open>
  Modelled from the spec: classes.py, which declares Object, is not among the sources.
  An object has the identifier it was searched with, its column x, its row y and a
  value, as the constructor call of findAll passes them; \<open>loc()\<close> is the pair (x, y).
  Objects are keys of dictionaries and members of a frozenset and are compared across
  separate calls of findAll, so equality is equality of the four fields.
\<close>

datatype Object = Object (objIdentifier: string) (objX: int) (objY: int) (objValue: int)

definition loc :: "Object \<Rightarrow> tile" where
  "loc obj = (objX obj, objY obj)"

text \<open>
  utils.py, findAll. The body of the two loops, for the tile at column x and row y:
  \<open>re.match("^" + target, tile)\<close> holds when the tile starts with the target; the value
  is what is left after removing the target, 0 when nothing is left, and \<open>int\<close> of it
  otherwise, which may raise ValueError. The loops run over the columns and, inside, over
  the tiles of a column, appending to \<open>locsAndVals\<close>.
\<close>

definition findTile :: "string \<Rightarrow> int \<Rightarrow> int \<Rightarrow> string \<Rightarrow> error + Object list" where
  "findTile target x y tile =
     (if take (length target) tile = target then
        (let v = reSub target tile in
         if v = [] then Inr [Object target x y 0]
         else (case pyInt v of None \<Rightarrow> Inl ValueError | Some n \<Rightarrow> Inr [Object target x y n]))
      else Inr [])"

fun findAllCol :: "string \<Rightarrow> int \<Rightarrow> int \<Rightarrow> string list \<Rightarrow> Object list \<Rightarrow> error + Object list" where
  "findAllCol target x y [] locsAndVals = Inr locsAndVals"
| "findAllCol target x y (tile # col) locsAndVals =
     (case findTile target x y tile of
        Inl e \<Rightarrow> Inl e
      | Inr found \<Rightarrow> findAllCol target x (y + 1) col (locsAndVals @ found))"

fun findAllGrid :: "string \<Rightarrow> int \<Rightarrow> string list list \<Rightarrow> Object list \<Rightarrow> error + Object list" where
  "findAllGrid target x [] locsAndVals = Inr locsAndVals"
| "findAllGrid target x (col # grid) locsAndVals =
     (case findAllCol target x 0 col locsAndVals of
        Inl e \<Rightarrow> Inl e
      | Inr locsAndVals' \<Rightarrow> findAllGrid target (x + 1) grid locsAndVals')"

definition findAll :: "string \<Rightarrow> string list list \<Rightarrow> error + Object list" where
  "findAll target grid = findAllGrid target 0 grid []"

section \<open>ObjectGraph\<close>

text \<open>
  utils.py, getDist. The binary grid holds 0 for the tiles \<open>.\<close> and \<open>A\<close> and 1 for every
  other tile; then the start and the end tile are set to 0. The distance returned is the
  first component of the result of aStarSearch with the Manhattan heuristic.
\<close>

definition binTile :: "string \<Rightarrow> int" where
  "binTile tile = (if tile = ''.'' \<or> tile = ''A'' then 0 else 1)"

definition occupancy :: "tile \<Rightarrow> tile \<Rightarrow> string list list \<Rightarrow> error + int list list" where
  "occupancy start end grid =
     (case pySet2 (map (map binTile) grid) (fst start) (snd start) 0 of
        Inl e \<Rightarrow> Inl e
      | Inr binGrid \<Rightarrow> pySet2 binGrid (fst end) (snd end) 0)"

definition getDist :: "tile \<Rightarrow> tile \<Rightarrow> string list list \<Rightarrow> error + pynum" where
  "getDist start end grid =
     (case occupancy start end grid of
        Inl e \<Rightarrow> Inl e
      | Inr binGrid \<Rightarrow> Inr (fst (aStarSearch start end binGrid getManhattanDist)))"

text \<open>
  utils.py, convertToGraph. A Python dictionary keeps its keys in insertion order and
  an assignment to a present key replaces the value in place: an association list with
  \<open>AList.update\<close>. The adjacency matrix is a dictionary of dictionaries, every entry 0
  at first; then, for every object and every object after it in the list, the distance is
  stored in both directions. A lookup of an absent key raises KeyError.
\<close>

type_synonym adjMatrix = "(Object \<times> (Object \<times> pynum) list) list"

definition findNonObstacles :: "string list list \<Rightarrow> error + Object list" where
  "findNonObstacles grid =
     (case findAll ''A'' grid of
        Inl e \<Rightarrow> Inl e
      | Inr agents \<Rightarrow>
          (case findAll ''C'' grid of
             Inl e \<Rightarrow> Inl e
           | Inr coins \<Rightarrow>
               (case findAll ''SD'' grid of
                  Inl e \<Rightarrow> Inl e
                | Inr buttons \<Rightarrow> Inr (agents @ coins @ buttons))))"

definition dictFromKeys :: "'k list \<Rightarrow> 'v \<Rightarrow> ('k \<times> 'v) list" where
  "dictFromKeys ks v = foldl (\<lambda>d k. AList.update k v d) [] ks"

definition setEdge :: "adjMatrix \<Rightarrow> Object \<Rightarrow> Object \<Rightarrow> pynum \<Rightarrow> error + adjMatrix" where
  "setEdge adjMatrix source target dist =
     (case map_of adjMatrix source of
        None \<Rightarrow> Inl KeyError
      | Some row \<Rightarrow> Inr (AList.update source (AList.update target dist row) adjMatrix))"

fun graphTargets :: "string list list \<Rightarrow> Object \<Rightarrow> Object list \<Rightarrow> adjMatrix \<Rightarrow> error + adjMatrix" where
  "graphTargets grid source [] adjMatrix = Inr adjMatrix"
| "graphTargets grid source (target # rest) adjMatrix =
     (case getDist (loc source) (loc target) grid of
        Inl e \<Rightarrow> Inl e
      | Inr dist \<Rightarrow>
          (case setEdge adjMatrix source target dist of
             Inl e \<Rightarrow> Inl e
           | Inr adj1 \<Rightarrow>
               (case setEdge adj1 target source dist of
                  Inl e \<Rightarrow> Inl e
                | Inr adj2 \<Rightarrow> graphTargets grid source rest adj2)))"

fun graphSources :: "string list list \<Rightarrow> Object list \<Rightarrow> adjMatrix \<Rightarrow> error + adjMatrix" where
  "graphSources grid [] adjMatrix = Inr adjMatrix"
| "graphSources grid (source # rest) adjMatrix =
     (case graphTargets grid source rest adjMatrix of
        Inl e \<Rightarrow> Inl e
      | Inr adj1 \<Rightarrow> graphSources grid rest adj1)"

definition convertToGraph :: "string list list \<Rightarrow> error + adjMatrix" where
  "convertToGraph grid =
     (case findNonObstacles grid of
        Inl e \<Rightarrow> Inl e
      | Inr nonObstacles \<Rightarrow>
          graphSources grid nonObstacles
            (dictFromKeys nonObstacles (dictFromKeys nonObstacles (PInt 0))))"

text \<open>
  utils.py, omitFromGrid: the tile of every visited object is overwritten with \<open>.\<close> in a
  copy of the grid. The source iterates over a frozenset; every write stores the same
  value, so the order of the iteration does not show, and the model takes the objects
  as a list.
\<close>

fun omitFromGrid :: "string list list \<Rightarrow> Object list \<Rightarrow> error + string list list" where
  "omitFromGrid grid [] = Inr grid"
| "omitFromGrid grid (obj # visited) =
     (case pySet2 grid (objX obj) (objY obj) ''.'' of
        Inl e \<Rightarrow> Inl e
      | Inr alteredGrid \<Rightarrow> omitFromGrid alteredGrid visited)"

section \<open>ScoreSearch\<close>

text \<open>
  Modelled from the spec: classes.py, which declares DLSNode, is not among the sources.
  A search node holds its parent, its current object, the accumulated cost, the
  remaining budget and the accumulated score, as the constructor calls of getMScores pass
  them. The spec gives the three methods: the path is the list of objects from the root
  to the node, rebuilt through the parents; the visited set is the path objects excluding
  the current one; the trajectory length is cost + budget.
\<close>

datatype DLSNode =
  DLSNode (dParent: "DLSNode option") (dObj: Object) (dCost: pynum) (dBudget: pynum) (dScore: int)

fun pathTo :: "DLSNode option \<Rightarrow> Object list \<Rightarrow> Object list" where
  "pathTo None path = path"
| "pathTo (Some (DLSNode parent obj cost budget score)) path = pathTo parent (obj # path)"

definition getPath :: "DLSNode \<Rightarrow> Object list" where
  "getPath node = pathTo (Some node) []"

definition getVisitedList :: "DLSNode \<Rightarrow> Object list" where
  "getVisitedList node = pathTo (dParent node) []"

definition getVisited :: "DLSNode \<Rightarrow> Object set" where
  "getVisited node = set (getVisitedList node)"

definition getTrajLen :: "DLSNode \<Rightarrow> error + pynum" where
  "getTrajLen node = pyAdd (dCost node) (dBudget node)"

text \<open>
  utils.py, getMScores, lines 341 to 358: the table entry of the node's trajectory
  length is written when there is none (the KeyError branch) or when the node's score is
  greater than the stored one. An exception raised while the trajectory length is
  computed is not a KeyError and leaves the loop.
\<close>

type_synonym mScores = "(pynum \<times> (int \<times> Object list)) list"
type_synonym graphs = "(Object set \<times> adjMatrix option) list"

definition updateMScores :: "DLSNode \<Rightarrow> mScores \<Rightarrow> error + mScores" where
  "updateMScores currentNode mScores =
     (case getTrajLen currentNode of
        Inl e \<Rightarrow> Inl e
      | Inr trajLen \<Rightarrow>
          Inr (case dictGet mScores trajLen of
                 None \<Rightarrow> dictSet trajLen (dScore currentNode, getPath currentNode) mScores
               | Some (maxScore, maxPath) \<Rightarrow>
                   if dScore currentNode > maxScore
                   then dictSet trajLen (dScore currentNode, getPath currentNode) mScores
                   else mScores))"

text \<open>
  utils.py, getMScores, lines 362 to 385. The graph of the node's visited set is read
  from the cache \<open>graphs\<close> and, when the entry is None, built from the grid without the
  visited objects and stored. A neighbour on the node's path is skipped; so is one whose
  edge weight exceeds the budget; any other gives a child node, put at the end of the
  queue. The child's cost is the cost plus the weight, its budget the budget minus the
  weight, plus the value of a time-extension device; with the float weight MAXDIST these
  are float operations, and one of them can raise OverflowError.
\<close>

definition getAlteredGraph :: "string list list \<Rightarrow> DLSNode \<Rightarrow> graphs \<Rightarrow> error + adjMatrix \<times> graphs" where
  "getAlteredGraph grid currentNode graphs =
     (case map_of graphs (getVisited currentNode) of
        None \<Rightarrow> Inl KeyError
      | Some (Some alteredGraph) \<Rightarrow> Inr (alteredGraph, graphs)
      | Some None \<Rightarrow>
          (case omitFromGrid grid (getVisitedList currentNode) of
             Inl e \<Rightarrow> Inl e
           | Inr alteredGrid \<Rightarrow>
               (case convertToGraph alteredGrid of
                  Inl e \<Rightarrow> Inl e
                | Inr alteredGraph \<Rightarrow>
                    Inr (alteredGraph,
                         AList.update (getVisited currentNode) (Some alteredGraph) graphs))))"

definition edgeWeight :: "adjMatrix \<Rightarrow> Object \<Rightarrow> Object \<Rightarrow> error + pynum" where
  "edgeWeight adjMatrix source target =
     (case map_of adjMatrix source of
        None \<Rightarrow> Inl KeyError
      | Some row \<Rightarrow> (case map_of row target of None \<Rightarrow> Inl KeyError | Some w \<Rightarrow> Inr w))"

definition childNode :: "DLSNode \<Rightarrow> Object \<Rightarrow> pynum \<Rightarrow> error + DLSNode" where
  "childNode currentNode neighbour w =
     (case pyAdd (dCost currentNode) w of
        Inl e \<Rightarrow> Inl e
      | Inr cost \<Rightarrow>
          (case pySub (dBudget currentNode) w of
             Inl e \<Rightarrow> Inl e
           | Inr budget \<Rightarrow>
               (case (if objIdentifier neighbour = ''SD''
                      then pyAdd budget (PInt (objValue neighbour)) else Inr budget) of
                  Inl e \<Rightarrow> Inl e
                | Inr budget' \<Rightarrow>
                    Inr (DLSNode (Some currentNode) neighbour cost budget'
                           (dScore currentNode
                            + (if objIdentifier neighbour = ''C'' then objValue neighbour else 0))))))"

fun expandNode ::
  "string list list \<Rightarrow> DLSNode \<Rightarrow> Object list \<Rightarrow> DLSNode list \<Rightarrow> graphs
     \<Rightarrow> error + DLSNode list \<times> graphs" where
  "expandNode grid currentNode [] q graphs = Inr (q, graphs)"
| "expandNode grid currentNode (neighbour # rest) q graphs =
     (case getAlteredGraph grid currentNode graphs of
        Inl e \<Rightarrow> Inl e
      | Inr (alteredGraph, graphs1) \<Rightarrow>
          if neighbour \<in> set (getPath currentNode) then expandNode grid currentNode rest q graphs1
          else (case edgeWeight alteredGraph (dObj currentNode) neighbour of
                  Inl e \<Rightarrow> Inl e
                | Inr w \<Rightarrow>
                    if pyGt w (dBudget currentNode) then expandNode grid currentNode rest q graphs1
                    else (case childNode currentNode neighbour w of
                            Inl e \<Rightarrow> Inl e
                          | Inr child \<Rightarrow>
                              expandNode grid currentNode rest (q @ [child]) graphs1)))"

text \<open>
  \<open>itertools.combinations(xs, r)\<close>, in its order, and the keys of \<open>graphs\<close>: the
  frozensets of the combinations of every length.
\<close>

fun combinations :: "'a list \<Rightarrow> nat \<Rightarrow> 'a list list" where
  "combinations xs 0 = [[]]"
| "combinations [] (Suc r) = []"
| "combinations (x # xs) (Suc r) = map ((#) x) (combinations xs r) @ combinations xs (Suc r)"

definition objectPowerset :: "Object list \<Rightarrow> Object set list" where
  "objectPowerset nonObstacles =
     map set (concat (map (combinations nonObstacles) [0 ..< length nonObstacles + 1]))"

text \<open>
  Termination of the search loop. A node whose path misses d of the graph's keys has at
  most d children, each missing at most d - 1 keys; \<open>subtreeBound d\<close> bounds the number
  of nodes below and including such a node, and the sum of the bounds over the queue
  decreases with every node taken from the queue.
\<close>

fun subtreeBound :: "nat \<Rightarrow> nat" where
  "subtreeBound 0 = 1"
| "subtreeBound (Suc d) = Suc (Suc d * subtreeBound d)"

definition unvisitedCount :: "Object list \<Rightarrow> DLSNode \<Rightarrow> nat" where
  "unvisitedCount keys node = length (filter (\<lambda>obj. obj \<notin> set (getPath node)) keys)"

definition dlsWeight :: "Object list \<Rightarrow> DLSNode list \<Rightarrow> nat" where
  "dlsWeight keys q = sum_list (map (\<lambda>node. subtreeBound (unvisitedCount keys node)) q)"

lemma subtreeBound_mono: "a \<le> b \<Longrightarrow> subtreeBound a \<le> subtreeBound b"
proof (induction b)
  case 0
  then show ?case by simp
next
  case (Suc b)
  show ?case
  proof (cases "a = Suc b")
    case True
    then show ?thesis by simp
  next
    case False
    then have "subtreeBound a \<le> subtreeBound b" using Suc by simp
    also have "\<dots> \<le> Suc (Suc b * subtreeBound b)" by simp
    finally show ?thesis by simp
  qed
qed

lemma pathTo_append_gen: "pathTo p (acc @ acc') = pathTo p acc @ acc'"
  by (induction p acc arbitrary: acc' rule: pathTo.induct) (simp_all flip: append_Cons)

lemma pathTo_append: "pathTo p acc = pathTo p [] @ acc"
  using pathTo_append_gen[of p "[]" acc] by simp

lemma childNode_Inr:
  assumes "childNode cur n w = Inr c"
  shows "getPath c = getPath cur @ [n]" and "dObj c = n"
    and "dScore c = dScore cur + (if objIdentifier n = ''C'' then objValue n else 0)"
proof -
  obtain cost budget where c: "c = DLSNode (Some cur) n cost budget
      (dScore cur + (if objIdentifier n = ''C'' then objValue n else 0))"
    using assms unfolding childNode_def by (auto split: sum.splits)
  show "getPath c = getPath cur @ [n]"
    unfolding c getPath_def using pathTo_append[of "Some cur" "[n]"] by simp
  show "dObj c = n" unfolding c by simp
  show "dScore c = dScore cur + (if objIdentifier n = ''C'' then objValue n else 0)"
    unfolding c by simp
qed

lemma getPath_visited: "getPath node = getVisitedList node @ [dObj node]"
  unfolding getPath_def getVisitedList_def
  using pathTo_append[of "dParent node" "[dObj node]"] by (cases node) simp

lemma unvisitedCount_child:
  assumes "n \<in> set keys" "n \<notin> set (getPath cur)" "childNode cur n w = Inr c"
  shows "unvisitedCount keys c < unvisitedCount keys cur"
proof -
  let ?P = "\<lambda>obj. obj \<notin> set (getPath cur)"
  have e: "filter (\<lambda>obj. obj \<notin> set (getPath c)) keys
        = filter (\<lambda>obj. obj \<noteq> n) (filter ?P keys)"
    by (auto simp: childNode_Inr(1)[OF assms(3)] intro: filter_cong)
  have m: "n \<in> set (filter ?P keys)" using assms by simp
  have "length (filter (\<lambda>obj. obj \<noteq> n) (filter ?P keys)) < length (filter ?P keys)"
    using m by (rule length_filter_less) simp
  then show ?thesis unfolding unvisitedCount_def e .
qed

lemma expandNode_queue:
  "expandNode grid cur ns q graphs = Inr (q', graphs') \<Longrightarrow>
     \<exists>cs. q' = q @ cs \<and> length cs \<le> length (filter (\<lambda>obj. obj \<notin> set (getPath cur)) ns)
        \<and> (\<forall>c\<in>set cs. \<exists>n w. childNode cur n w = Inr c \<and> n \<in> set ns \<and> n \<notin> set (getPath cur))"
proof (induction ns arbitrary: q graphs)
  case Nil
  then show ?case by simp
next
  case (Cons n ns)
  from Cons.prems obtain ag g1 where ag: "getAlteredGraph grid cur graphs = Inr (ag, g1)"
    by (auto split: sum.splits)
  show ?case
  proof (cases "n \<in> set (getPath cur)")
    case True
    then have "expandNode grid cur ns q g1 = Inr (q', graphs')"
      using Cons.prems ag by simp
    from Cons.IH[OF this] obtain cs where cs: "q' = q @ cs"
      "length cs \<le> length (filter (\<lambda>obj. obj \<notin> set (getPath cur)) ns)"
      "\<forall>c\<in>set cs. \<exists>n w. childNode cur n w = Inr c \<and> n \<in> set ns \<and> n \<notin> set (getPath cur)"
      by blast
    have "length cs \<le> length (filter (\<lambda>obj. obj \<notin> set (getPath cur)) (n # ns))"
      using cs(2) by simp
    moreover have "\<forall>c\<in>set cs. \<exists>m v. childNode cur m v = Inr c \<and> m \<in> set (n # ns) \<and> m \<notin> set (getPath cur)"
      using cs(3) by (metis list.set_intros(2))
    ultimately show ?thesis using cs(1) by blast
  next
    case False
    then obtain w where w: "edgeWeight ag (dObj cur) n = Inr w"
      using Cons.prems ag by (auto split: sum.splits)
    show ?thesis
    proof (cases "pyGt w (dBudget cur)")
      case True
      then have "expandNode grid cur ns q g1 = Inr (q', graphs')"
        using Cons.prems ag w False by simp
      from Cons.IH[OF this] obtain cs where cs: "q' = q @ cs"
        "length cs \<le> length (filter (\<lambda>obj. obj \<notin> set (getPath cur)) ns)"
        "\<forall>c\<in>set cs. \<exists>n w. childNode cur n w = Inr c \<and> n \<in> set ns \<and> n \<notin> set (getPath cur)"
        by blast
      have "length cs \<le> length (filter (\<lambda>obj. obj \<notin> set (getPath cur)) (n # ns))"
        using cs(2) by simp
      moreover have "\<forall>c\<in>set cs. \<exists>m v. childNode cur m v = Inr c \<and> m \<in> set (n # ns) \<and> m \<notin> set (getPath cur)"
        using cs(3) by (metis list.set_intros(2))
      ultimately show ?thesis using cs(1) by blast
    next
      case nb: False
      then obtain child where ch: "childNode cur n w = Inr child"
        using Cons.prems ag w False by (auto split: sum.splits)
      then have "expandNode grid cur ns (q @ [child]) g1 = Inr (q', graphs')"
        using Cons.prems ag w False nb by simp
      from Cons.IH[OF this] obtain cs where cs: "q' = (q @ [child]) @ cs"
        "length cs \<le> length (filter (\<lambda>obj. obj \<notin> set (getPath cur)) ns)"
        "\<forall>c\<in>set cs. \<exists>n w. childNode cur n w = Inr c \<and> n \<in> set ns \<and> n \<notin> set (getPath cur)"
        by blast
      have "q' = q @ (child # cs)" using cs(1) by simp
      moreover have "length (child # cs)
                     \<le> length (filter (\<lambda>obj. obj \<notin> set (getPath cur)) (n # ns))"
        using cs(2) False by simp
      moreover have "\<forall>c\<in>set (child # cs).
                       \<exists>m v. childNode cur m v = Inr c \<and> m \<in> set (n # ns) \<and> m \<notin> set (getPath cur)"
        using cs(3) False ch by (metis list.set_intros(1) list.set_intros(2) set_ConsD)
      ultimately show ?thesis by blast
    qed
  qed
qed

lemma sum_list_le_length_times:
  "\<forall>x\<in>set xs. f x \<le> (b::nat) \<Longrightarrow> sum_list (map f xs) \<le> length xs * b"
  by (induction xs) (auto simp: add_mono)

lemma dlsWeight_decreases:
  assumes "expandNode grid cur keys rest graphs = Inr (q', graphs')"
  shows "dlsWeight keys q' < dlsWeight keys (cur # rest)"
proof -
  let ?D = "unvisitedCount keys cur"
  let ?f = "\<lambda>node. subtreeBound (unvisitedCount keys node)"
  obtain cs where cs: "q' = rest @ cs"
    "length cs \<le> length (filter (\<lambda>obj. obj \<notin> set (getPath cur)) keys)"
    "\<forall>c\<in>set cs. \<exists>n w. childNode cur n w = Inr c \<and> n \<in> set keys \<and> n \<notin> set (getPath cur)"
    using expandNode_queue[OF assms] by blast
  have len: "length cs \<le> ?D" using cs(2) by (simp add: unvisitedCount_def)
  have "sum_list (map ?f cs) < subtreeBound ?D"
  proof (cases ?D)
    case 0
    then show ?thesis using len by simp
  next
    case (Suc k)
    have "\<forall>c\<in>set cs. ?f c \<le> subtreeBound k"
    proof
      fix c assume "c \<in> set cs"
      then obtain n w where "childNode cur n w = Inr c" "n \<in> set keys" "n \<notin> set (getPath cur)"
        using cs(3) by blast
      then have "unvisitedCount keys c < ?D" using unvisitedCount_child by simp
      then have "unvisitedCount keys c \<le> k" using Suc by simp
      then show "?f c \<le> subtreeBound k" by (rule subtreeBound_mono)
    qed
    then have "sum_list (map ?f cs) \<le> length cs * subtreeBound k"
      by (rule sum_list_le_length_times)
    also have "\<dots> \<le> Suc k * subtreeBound k" using len Suc by (intro mult_le_mono1) simp
    also have "\<dots> < subtreeBound (Suc k)" by simp
    finally show ?thesis using Suc by simp
  qed
  then show ?thesis using cs(1) by (simp add: dlsWeight_def)
qed

text \<open>
  The while loop of getMScores on the queue, the table and the cache: the node at the
  front is taken, recorded and then expanded. An exception ends the loop with that
  exception, the empty queue ends it with the table.
\<close>

function dlsLoop ::
  "string list list \<Rightarrow> adjMatrix \<Rightarrow> DLSNode list \<Rightarrow> mScores \<Rightarrow> graphs \<Rightarrow> error + mScores" where
  "dlsLoop grid initialGraph q mScores graphs =
     (case q of
        [] \<Rightarrow> Inr mScores
      | currentNode # rest \<Rightarrow>
          (case updateMScores currentNode mScores of
             Inl e \<Rightarrow> Inl e
           | Inr mScores' \<Rightarrow>
               (case expandNode grid currentNode (map fst initialGraph) rest graphs of
                  Inl e \<Rightarrow> Inl e
                | Inr (q', graphs') \<Rightarrow> dlsLoop grid initialGraph q' mScores' graphs')))"
  by pat_completeness auto
termination
proof (relation "measure (\<lambda>(grid, initialGraph, q, mScores, graphs). dlsWeight (map fst initialGraph) q)",
       goal_cases)
  case 1
  show ?case by simp
next
  case (2 grid initialGraph q mScores graphs currentNode rest mScores' x q' graphs')
  then show ?case
    using dlsWeight_decreases[of grid currentNode "map fst initialGraph" rest graphs q' graphs']
    by (cases x) auto
qed

declare dlsLoop.simps [simp del]

text \<open>
  utils.py, getMScores, called with \<open>quiet=True\<close> as generateGrids.py calls it. With
  \<open>quiet=False\<close> the loop also prints the node it records; the console output is
  outside the model (it formats the objects with methods of classes.py, which is not
  among the sources).
  Lines 314 to 330 set the search up: the initial graph, the cache with a None entry
  for every set of objects and the initial graph for the empty set, and the queue with
  the root node at the first Agent; \<open>findAll("A", grid)[0]\<close> raises IndexError when
  the grid has no Agent. Then the loop runs on the empty table.
\<close>

definition initialSearch ::
  "string list list \<Rightarrow> int \<Rightarrow> error + adjMatrix \<times> DLSNode list \<times> graphs" where
  "initialSearch grid defaultLimit =
     (case convertToGraph grid of
        Inl e \<Rightarrow> Inl e
      | Inr initialGraph \<Rightarrow>
          (case findNonObstacles grid of
             Inl e \<Rightarrow> Inl e
           | Inr nonObstacles \<Rightarrow>
               (let graphs = AList.update {} (Some initialGraph)
                               (dictFromKeys (objectPowerset nonObstacles) None)
                in case findAll ''A'' grid of
                     Inl e \<Rightarrow> Inl e
                   | Inr agents \<Rightarrow>
                       (case agents of
                          [] \<Rightarrow> Inl IndexError
                        | agent # others \<Rightarrow>
                            Inr (initialGraph,
                                 [DLSNode None agent (PInt 0) (PInt defaultLimit) 0], graphs)))))"

definition getMScores :: "string list list \<Rightarrow> int \<Rightarrow> error + mScores" where
  "getMScores grid defaultLimit =
     (case initialSearch grid defaultLimit of
        Inl e \<Rightarrow> Inl e
      | Inr (initialGraph, q, graphs) \<Rightarrow> dlsLoop grid initialGraph q [] graphs)"



section \<open>Reading a grid file\<close>

text \<open>
  utils.py, parseEnv, on the lines of the file as \<open>readline\<close> and \<open>readlines\<close> give
  them (opening the file is not modelled). The first line goes through \<open>int\<close>, every
  other line through \<open>split\<close>, and \<open>np.array(grid).T.tolist()\<close> transposes the rows, so
  that the first index of the result is the column. numpy refuses a ragged list of rows
  with ValueError (from numpy 1.24 on; generateGrids.py calls random.binomialvariate,
  which needs Python 3.12 and with it numpy 1.26 or later). A numpy array of strings
  has a fixed width padded with NUL characters, which \<open>tolist\<close> drops again together with
  the NUL characters a token ends in. parseEnv looks at no token otherwise.
\<close>

definition dropTrailingNul :: "string \<Rightarrow> string" where
  "dropTrailingNul token = rev (dropWhile (\<lambda>c. c = CHR 0x00) (rev token))"

definition transposeRows :: "string list list \<Rightarrow> error + string list list" where
  "transposeRows rows =
     (case rows of
        [] \<Rightarrow> Inr []
      | first # others \<Rightarrow>
          if list_all (\<lambda>row. length row = length first) others
          then Inr (map (\<lambda>x. map (\<lambda>row. dropTrailingNul (row ! x)) rows) [0 ..< length first])
          else Inl ValueError)"

definition parseEnv :: "string list \<Rightarrow> error + int \<times> string list list" where
  "parseEnv fileLines =
     (case pyInt (case fileLines of [] \<Rightarrow> [] | first # others \<Rightarrow> first) of
        None \<Rightarrow> Inl ValueError
      | Some epLen \<Rightarrow>
          (case transposeRows (map split (tl fileLines)) of
             Inl e \<Rightarrow> Inl e
           | Inr grid \<Rightarrow> Inr (epLen, grid)))"

section \<open>Routes inside the grid\<close>

text \<open>
  The spec's words, for comparison with aStarSearch: a tile is a coordinate pair within
  the W by H grid; a route is a list of free tiles of the grid in which each tile is one
  four-directional step from the one before. \<open>specReachWithin grid start k\<close> lists the
  tiles that a route of at most k steps from \<open>start\<close> can end in.
\<close>

definition specInGrid :: "int list list \<Rightarrow> tile \<Rightarrow> bool" where
  "specInGrid grid t =
     (0 \<le> fst t \<and> fst t < int (length grid) \<and>
      0 \<le> snd t \<and> snd t < int (length (grid ! nat (fst t))))"

definition specFree :: "int list list \<Rightarrow> tile \<Rightarrow> bool" where
  "specFree grid t = (specInGrid grid t \<and> grid ! nat (fst t) ! nat (snd t) = 0)"

definition specNeighbours :: "int list list \<Rightarrow> tile \<Rightarrow> tile list" where
  "specNeighbours grid t =
     filter (specFree grid)
       [(fst t, snd t - 1), (fst t + 1, snd t), (fst t, snd t + 1), (fst t - 1, snd t)]"

fun specRoute :: "int list list \<Rightarrow> tile list \<Rightarrow> bool" where
  "specRoute grid [] = False"
| "specRoute grid [t] = True"
| "specRoute grid (a # b # route) = (b \<in> set (specNeighbours grid a) \<and> specRoute grid (b # route))"

fun specReachWithin :: "int list list \<Rightarrow> tile \<Rightarrow> nat \<Rightarrow> tile list" where
  "specReachWithin grid start 0 = [start]"
| "specReachWithin grid start (Suc k) =
     (let r = specReachWithin grid start k
      in remdups (r @ concat (map (specNeighbours grid) r)))"

lemma specRoute_reach_gen:
  "specRoute grid (a # route) \<Longrightarrow> a \<in> set (specReachWithin grid start k) \<Longrightarrow>
     last (a # route) \<in> set (specReachWithin grid start (k + length route))"
proof (induction route arbitrary: a k)
  case Nil
  then show ?case by simp
next
  case (Cons b route)
  have b: "b \<in> set (specNeighbours grid a)" and r: "specRoute grid (b # route)"
    using Cons.prems(1) by simp_all
  have "b \<in> set (specReachWithin grid start (Suc k))"
    using b Cons.prems(2) by (auto simp: Let_def)
  from Cons.IH[OF r this] show ?case by simp
qed

lemma specRoute_reach:
  assumes "specRoute grid route"
  shows "last route \<in> set (specReachWithin grid (hd route) (length route - 1))"
proof (cases route)
  case Nil
  then show ?thesis using assms by simp
next
  case (Cons a rest)
  then show ?thesis using assms specRoute_reach_gen[of grid a rest a 0] by simp
qed

section \<open>What findAll returns\<close>

text \<open>
  findAll succeeds exactly when every tile that starts with the target leaves nothing or
  an integer after the target is removed, and then returns the objects found at the
  tiles of the grid, each carrying its own column and row.
\<close>

definition tileOk :: "string \<Rightarrow> string \<Rightarrow> bool" where
  "tileOk target tile =
     (take (length target) tile = target \<longrightarrow>
        reSub target tile = [] \<or> pyInt (reSub target tile) \<noteq> None)"

definition foundAt :: "string \<Rightarrow> string list list \<Rightarrow> Object \<Rightarrow> bool" where
  "foundAt target grid obj =
     (\<exists>i<length grid. \<exists>j<length (grid ! i).
        findTile target (int i) (int j) (grid ! i ! j) = Inr [obj])"

lemma findTile_cases:
  "findTile t x y tile = Inl ValueError \<and> \<not> tileOk t tile
   \<or> findTile t x y tile = Inr [] \<and> tileOk t tile \<and> take (length t) tile \<noteq> t
   \<or> (\<exists>n. findTile t x y tile = Inr [Object t x y n] \<and> tileOk t tile \<and> take (length t) tile = t)"
  by (auto simp: findTile_def tileOk_def Let_def split: option.splits)

lemma findTile_Inr_single:
  "findTile t x y tile = Inr [obj] \<Longrightarrow>
     objIdentifier obj = t \<and> objX obj = x \<and> objY obj = y \<and> take (length t) tile = t"
  using findTile_cases[of t x y tile] by auto

lemma findTile_Inr_set:
  "findTile t x y tile = Inr found \<Longrightarrow> set found = {obj. findTile t x y tile = Inr [obj]}"
  using findTile_cases[of t x y tile] by auto

lemma findTile_Inr_tileOk: "findTile t x y tile = Inr found \<Longrightarrow> tileOk t tile"
  using findTile_cases[of t x y tile] by auto

lemma findTile_tileOk: "tileOk t tile \<Longrightarrow> \<exists>found. findTile t x y tile = Inr found"
  using findTile_cases[of t x y tile] by auto

lemma ex_less_Suc_shift: "(\<exists>i<Suc n. P i) \<longleftrightarrow> (P 0 \<or> (\<exists>i<n. P (Suc i)))"
  by (auto simp: less_Suc_eq_0_disj)

lemma findAllCol_set:
  "findAllCol t x y col acc = Inr r \<Longrightarrow>
     set r = set acc \<union> {obj. \<exists>j<length col. findTile t x (y + int j) (col ! j) = Inr [obj]}"
proof (induction col arbitrary: y acc)
  case Nil
  then show ?case by simp
next
  case (Cons tile col)
  from Cons.prems obtain found where f: "findTile t x y tile = Inr found"
    and rec: "findAllCol t x (y + 1) col (acc @ found) = Inr r"
    by (auto split: sum.splits)
  have "set r = set (acc @ found)
          \<union> {obj. \<exists>j<length col. findTile t x (y + 1 + int j) (col ! j) = Inr [obj]}"
    by (rule Cons.IH[OF rec])
  moreover have "{obj. \<exists>j<length (tile # col). findTile t x (y + int j) ((tile # col) ! j) = Inr [obj]}
      = set found \<union> {obj. \<exists>j<length col. findTile t x (y + 1 + int j) (col ! j) = Inr [obj]}"
    (is "?L = ?R")
  proof (rule set_eqI)
    fix obj
    have "obj \<in> ?L \<longleftrightarrow> (findTile t x y tile = Inr [obj]
            \<or> (\<exists>j<length col. findTile t x (y + int (Suc j)) (col ! j) = Inr [obj]))"
      by (simp add: ex_less_Suc_shift)
    also have "\<dots> \<longleftrightarrow> obj \<in> ?R"
      using findTile_Inr_set[OF f] by (simp add: algebra_simps)
    finally show "obj \<in> ?L \<longleftrightarrow> obj \<in> ?R" .
  qed
  ultimately show ?case by auto
qed

lemma findAllGrid_set:
  "findAllGrid t x grid acc = Inr r \<Longrightarrow>
     set r = set acc \<union> {obj. \<exists>i<length grid. \<exists>j<length (grid ! i).
                              findTile t (x + int i) (int j) (grid ! i ! j) = Inr [obj]}"
proof (induction grid arbitrary: x acc)
  case Nil
  then show ?case by simp
next
  case (Cons col grid)
  from Cons.prems obtain acc1 where c: "findAllCol t x 0 col acc = Inr acc1"
    and rec: "findAllGrid t (x + 1) grid acc1 = Inr r"
    by (auto split: sum.splits)
  have s1: "set acc1 = set acc \<union> {obj. \<exists>j<length col. findTile t x (int j) (col ! j) = Inr [obj]}"
    using findAllCol_set[OF c] by simp
  have s2: "set r = set acc1 \<union> {obj. \<exists>i<length grid. \<exists>j<length (grid ! i).
                              findTile t (x + 1 + int i) (int j) (grid ! i ! j) = Inr [obj]}"
    by (rule Cons.IH[OF rec])
  have "{obj. \<exists>i<length (col # grid). \<exists>j<length ((col # grid) ! i).
              findTile t (x + int i) (int j) ((col # grid) ! i ! j) = Inr [obj]}
      = {obj. \<exists>j<length col. findTile t x (int j) (col ! j) = Inr [obj]}
        \<union> {obj. \<exists>i<length grid. \<exists>j<length (grid ! i).
                              findTile t (x + 1 + int i) (int j) (grid ! i ! j) = Inr [obj]}"
    (is "?L = ?A \<union> ?B")
  proof (rule set_eqI)
    fix obj
    have "obj \<in> ?L \<longleftrightarrow> ((\<exists>j<length col. findTile t x (int j) (col ! j) = Inr [obj])
            \<or> (\<exists>i<length grid. \<exists>j<length (grid ! i).
                  findTile t (x + int (Suc i)) (int j) (grid ! i ! j) = Inr [obj]))"
      by (simp add: ex_less_Suc_shift)
    also have "\<dots> \<longleftrightarrow> obj \<in> ?A \<union> ?B"
      by (simp add: algebra_simps)
    finally show "obj \<in> ?L \<longleftrightarrow> obj \<in> ?A \<union> ?B" .
  qed
  then show ?case using s1 s2 by auto
qed

lemma findAll_set: "findAll t grid = Inr objs \<Longrightarrow> set objs = {obj. foundAt t grid obj}"
  using findAllGrid_set[of t 0 grid "[]" objs] by (simp add: findAll_def foundAt_def)

lemma findAllCol_ok:
  "(\<exists>r. findAllCol t x y col acc = Inr r) \<longleftrightarrow> list_all (tileOk t) col"
proof (induction col arbitrary: y acc)
  case Nil
  then show ?case by simp
next
  case (Cons tile col)
  show ?case
  proof (cases "tileOk t tile")
    case True
    then obtain found where f: "findTile t x y tile = Inr found"
      using findTile_tileOk by blast
    then show ?thesis using True Cons.IH[of "y + 1" "acc @ found"] by simp
  next
    case False
    then have "findTile t x y tile = Inl ValueError"
      using findTile_cases[of t x y tile] by auto
    then show ?thesis using False by simp
  qed
qed

lemma findAllGrid_ok:
  "(\<exists>r. findAllGrid t x grid acc = Inr r) \<longleftrightarrow> list_all (list_all (tileOk t)) grid"
proof (induction grid arbitrary: x acc)
  case Nil
  then show ?case by simp
next
  case (Cons col grid)
  show ?case
  proof (cases "list_all (tileOk t) col")
    case True
    then obtain acc1 where c: "findAllCol t x 0 col acc = Inr acc1"
      using findAllCol_ok[of t x 0 col acc] by blast
    then show ?thesis using True Cons.IH[of "x + 1" acc1] by simp
  next
    case False
    then have "\<not> (\<exists>r. findAllCol t x 0 col acc = Inr r)"
      using findAllCol_ok[of t x 0 col acc] by blast
    then show ?thesis using False by (auto split: sum.splits)
  qed
qed

lemma findAll_ok: "(\<exists>objs. findAll t grid = Inr objs) \<longleftrightarrow> list_all (list_all (tileOk t)) grid"
  using findAllGrid_ok[of t 0 grid "[]"] by (simp add: findAll_def)

text \<open>
  The interactable objects of a grid: what findAll returns for A, C and SD. Each lies
  inside the grid, and no two of them lie on the same tile.
\<close>

definition isObject :: "string list list \<Rightarrow> Object \<Rightarrow> bool" where
  "isObject grid obj =
     (foundAt ''A'' grid obj \<or> foundAt ''C'' grid obj \<or> foundAt ''SD'' grid obj)"

lemma findNonObstacles_Inr:
  "findNonObstacles grid = Inr objs \<longleftrightarrow>
     (\<exists>agents coins buttons. findAll ''A'' grid = Inr agents \<and> findAll ''C'' grid = Inr coins
        \<and> findAll ''SD'' grid = Inr buttons \<and> objs = agents @ coins @ buttons)"
  by (auto simp: findNonObstacles_def split: sum.splits)

lemma findNonObstacles_set:
  "findNonObstacles grid = Inr objs \<Longrightarrow> set objs = {obj. isObject grid obj}"
  by (auto simp: findNonObstacles_Inr isObject_def dest!: findAll_set)

lemma foundAt_place:
  "foundAt t grid obj \<Longrightarrow>
     0 \<le> objX obj \<and> nat (objX obj) < length grid \<and> 0 \<le> objY obj
     \<and> nat (objY obj) < length (grid ! nat (objX obj))
     \<and> findTile t (objX obj) (objY obj) (grid ! nat (objX obj) ! nat (objY obj)) = Inr [obj]
     \<and> objIdentifier obj = t
     \<and> take (length t) (grid ! nat (objX obj) ! nat (objY obj)) = t"
proof -
  assume "foundAt t grid obj"
  then obtain i j where ij: "i < length grid" "j < length (grid ! i)"
    "findTile t (int i) (int j) (grid ! i ! j) = Inr [obj]"
    by (auto simp: foundAt_def)
  from findTile_Inr_single[OF ij(3)] have "objX obj = int i" "objY obj = int j"
    "objIdentifier obj = t" "take (length t) (grid ! i ! j) = t" by auto
  then show ?thesis using ij by simp
qed

lemma isObject_place:
  "isObject grid obj \<Longrightarrow>
     0 \<le> objX obj \<and> nat (objX obj) < length grid \<and> 0 \<le> objY obj
     \<and> nat (objY obj) < length (grid ! nat (objX obj))"
  unfolding isObject_def using foundAt_place by blast

lemma foundAt_same_tile:
  assumes "foundAt t1 grid o1" "foundAt t2 grid o2" "loc o1 = loc o2"
    and "t1 \<in> {''A'', ''C'', ''SD''}" "t2 \<in> {''A'', ''C'', ''SD''}"
  shows "o1 = o2"
proof -
  let ?tile = "grid ! nat (objX o1) ! nat (objY o1)"
  have xy: "objX o2 = objX o1" "objY o2 = objY o1" using assms(3) by (simp_all add: loc_def)
  have p1: "findTile t1 (objX o1) (objY o1) ?tile = Inr [o1]" "take (length t1) ?tile = t1"
    using foundAt_place[OF assms(1)] by simp_all
  have p2: "findTile t2 (objX o1) (objY o1) ?tile = Inr [o2]" "take (length t2) ?tile = t2"
    using foundAt_place[OF assms(2)] xy by simp_all
  have "t1 = t2"
  proof (rule ccontr)
    assume ne: "t1 \<noteq> t2"
    have "take 1 (take (length t1) ?tile) = take 1 (take (length t2) ?tile)"
      using assms(4,5) by (auto simp: min_def)
    then have "take 1 t1 = take 1 t2" using p1(2) p2(2) by simp
    then show False using ne assms(4,5) by auto
  qed
  then show ?thesis using p1(1) p2(1) by simp
qed

lemma isObject_same_tile: "isObject grid o1 \<Longrightarrow> isObject grid o2 \<Longrightarrow> loc o1 = loc o2 \<Longrightarrow> o1 = o2"
  unfolding isObject_def using foundAt_same_tile[of _ grid o1 _ o2] by blast

lemma pyIndex_nat: "i < length xs \<Longrightarrow> pyIndex xs (int i) = Some i"
  by (simp add: pyIndex_def)

lemma pySet2_in_range:
  "i < length g \<Longrightarrow> j < length (g ! i) \<Longrightarrow>
     pySet2 g (int i) (int j) v = Inr (g[i := (g ! i)[j := v]])"
  by (simp add: pySet2_def pyIndex_nat)

lemma occupancy_in_range:
  assumes "i1 < length grid" "j1 < length (grid ! i1)" "i2 < length grid" "j2 < length (grid ! i2)"
  shows "\<exists>b. occupancy (int i1, int j1) (int i2, int j2) grid = Inr b \<and> length b = length grid
     \<and> (\<forall>x<length grid. length (b ! x) = length (grid ! x)
          \<and> (\<forall>y<length (grid ! x).
                b ! x ! y = (if (x, y) = (i1, j1) \<or> (x, y) = (i2, j2) \<or> grid ! x ! y = ''.''
                              \<or> grid ! x ! y = ''A'' then 0 else 1)))"
proof -
  let ?g0 = "map (map binTile) grid"
  let ?g1 = "?g0[i1 := (?g0 ! i1)[j1 := 0]]"
  let ?g2 = "?g1[i2 := (?g1 ! i2)[j2 := 0]]"
  have s1: "pySet2 ?g0 (int i1) (int j1) 0 = Inr ?g1"
    using assms by (intro pySet2_in_range) simp_all
  have l1: "length ?g1 = length grid" "\<And>x. x < length grid \<Longrightarrow> length (?g1 ! x) = length (grid ! x)"
    using assms by (simp_all add: nth_list_update)
  have s2: "pySet2 ?g1 (int i2) (int j2) 0 = Inr ?g2"
    using assms l1 by (intro pySet2_in_range) simp_all
  have occ: "occupancy (int i1, int j1) (int i2, int j2) grid = Inr ?g2"
    using s1 s2 by (simp add: occupancy_def)
  have v: "\<And>x y. x < length grid \<Longrightarrow> y < length (grid ! x) \<Longrightarrow>
      ?g2 ! x ! y = (if (x, y) = (i1, j1) \<or> (x, y) = (i2, j2) \<or> grid ! x ! y = ''.''
                              \<or> grid ! x ! y = ''A'' then 0 else 1)"
    using assms by (auto simp: nth_list_update binTile_def)
  have l2: "length ?g2 = length grid" "\<And>x. x < length grid \<Longrightarrow> length (?g2 ! x) = length (grid ! x)"
    using assms by (simp_all add: nth_list_update)
  show ?thesis using occ v l2 by blast
qed

section \<open>Invariants of the search\<close>

text \<open>
  The keys of the graph are the interactable objects. Every node of the queue has a
  path without repetition, made of keys of the graph, and its score is the sum of the
  values of the coins on its path. The entries of the table inherit this.
\<close>

lemma keys_update: "fst ` set (AList.update k v al) = insert k (fst ` set al)"
  by (induction al) auto

lemma set_update_subset: "set (AList.update k v al) \<subseteq> insert (k, v) (set al)"
  by (induction al) auto

lemma keys_foldl_update:
  "fst ` set (foldl (\<lambda>d k. AList.update k v d) d0 ks) = fst ` set d0 \<union> set ks"
  by (induction ks arbitrary: d0) (auto simp: keys_update)

lemma keys_dictFromKeys: "fst ` set (dictFromKeys ks v) = set ks"
  by (simp add: dictFromKeys_def keys_foldl_update)

lemma map_of_None_keys: "map_of al k = None \<longleftrightarrow> k \<notin> fst ` set al"
  by (simp add: map_of_eq_None_iff)

lemma keys_setEdge: "setEdge adj s t d = Inr adj' \<Longrightarrow> fst ` set adj' = fst ` set adj"
proof -
  assume a: "setEdge adj s t d = Inr adj'"
  then obtain row where row: "map_of adj s = Some row"
    and adj': "adj' = AList.update s (AList.update t d row) adj"
    by (auto simp: setEdge_def split: option.splits)
  have "s \<in> fst ` set adj" using row map_of_None_keys[of adj s] by auto
  then show ?thesis unfolding adj' keys_update by auto
qed

lemma keys_graphTargets:
  "graphTargets grid s ts adj = Inr adj' \<Longrightarrow> fst ` set adj' = fst ` set adj"
proof (induction ts arbitrary: adj)
  case Nil
  then show ?case by simp
next
  case (Cons t ts)
  from Cons.prems obtain d a1 a2 where
    "setEdge adj s t d = Inr a1" "setEdge a1 t s d = Inr a2" "graphTargets grid s ts a2 = Inr adj'"
    by (auto split: sum.splits)
  then show ?case using Cons.IH[of a2] keys_setEdge by metis
qed

lemma keys_graphSources:
  "graphSources grid ss adj = Inr adj' \<Longrightarrow> fst ` set adj' = fst ` set adj"
proof (induction ss arbitrary: adj)
  case Nil
  then show ?case by simp
next
  case (Cons s ss)
  from Cons.prems obtain a1 where
    "graphTargets grid s ss adj = Inr a1" "graphSources grid ss a1 = Inr adj'"
    by (auto split: sum.splits)
  then show ?case using Cons.IH[of a1] keys_graphTargets by metis
qed

lemma keys_convertToGraph:
  "convertToGraph grid = Inr ig \<Longrightarrow> findNonObstacles grid = Inr objs \<Longrightarrow>
     set (map fst ig) = set objs"
proof -
  assume a: "convertToGraph grid = Inr ig" and b: "findNonObstacles grid = Inr objs"
  then have "graphSources grid objs (dictFromKeys objs (dictFromKeys objs (PInt 0))) = Inr ig"
    by (simp add: convertToGraph_def)
  from keys_graphSources[OF this] show ?thesis by (simp add: keys_dictFromKeys)
qed

definition coinSum :: "Object list \<Rightarrow> int" where
  "coinSum path = sum_list (map objValue (filter (\<lambda>obj. objIdentifier obj = ''C'') path))"

definition nodeOk :: "Object list \<Rightarrow> DLSNode \<Rightarrow> bool" where
  "nodeOk keys node =
     (distinct (getPath node) \<and> set (getPath node) \<subseteq> set keys
      \<and> dScore node = coinSum (getPath node))"

definition entryOk :: "Object list \<Rightarrow> pynum \<times> int \<times> Object list \<Rightarrow> bool" where
  "entryOk keys entry =
     (case entry of (L, score, path) \<Rightarrow>
        distinct path \<and> set path \<subseteq> set keys \<and> score = coinSum path)"

lemma nodeOk_childNode:
  assumes "nodeOk keys cur" "n \<in> set keys" "n \<notin> set (getPath cur)" "childNode cur n w = Inr c"
  shows "nodeOk keys c"
proof -
  have p: "getPath c = getPath cur @ [n]" by (rule childNode_Inr(1)[OF assms(4)])
  have "dScore c = coinSum (getPath cur @ [n])"
    using assms(1) childNode_Inr(3)[OF assms(4)] by (simp add: nodeOk_def coinSum_def)
  then show ?thesis using assms(1,2,3) by (simp add: nodeOk_def p)
qed

lemma dictSet_set: "e \<in> set (dictSet k v d) \<Longrightarrow> e \<in> set d \<or> snd e = v"
  by (induction d) (auto split: if_splits)

lemma entryOk_updateMScores:
  assumes "nodeOk keys node" "\<forall>e\<in>set ms. entryOk keys e" "updateMScores node ms = Inr ms'"
  shows "\<forall>e\<in>set ms'. entryOk keys e"
proof
  fix e assume e: "e \<in> set ms'"
  have "e \<in> set ms \<or> snd e = (dScore node, getPath node)"
    using assms(3) e dictSet_set[of e _ "(dScore node, getPath node)" ms]
    by (auto simp: updateMScores_def split: sum.splits option.splits if_splits)
  then show "entryOk keys e"
  proof
    assume "e \<in> set ms"
    then show ?thesis using assms(2) by simp
  next
    assume "snd e = (dScore node, getPath node)"
    then show ?thesis using assms(1) by (cases e) (simp add: entryOk_def nodeOk_def)
  qed
qed

lemma dlsLoop_invariant:
  "dlsLoop grid ig q ms graphs = Inr table \<Longrightarrow>
   \<forall>n\<in>set q. nodeOk (map fst ig) n \<Longrightarrow>
   \<forall>e\<in>set ms. entryOk (map fst ig) e \<Longrightarrow>
     \<forall>e\<in>set table. entryOk (map fst ig) e"
proof (induction grid ig q ms graphs rule: dlsLoop.induct)
  case (1 grid ig q ms graphs)
  show ?case
  proof (cases q)
    case Nil
    then have "table = ms" using "1.prems"(1) by (subst (asm) dlsLoop.simps) simp
    then show ?thesis using "1.prems" by simp
  next
    case (Cons cur rest)
    from "1.prems"(1) Cons obtain ms' q' graphs' where
      up: "updateMScores cur ms = Inr ms'"
      and ex: "expandNode grid cur (map fst ig) rest graphs = Inr (q', graphs')"
      and rec: "dlsLoop grid ig q' ms' graphs' = Inr table"
      by (subst (asm) dlsLoop.simps) (auto split: sum.splits)
    have cur: "nodeOk (map fst ig) cur" and restok: "\<forall>n\<in>set rest. nodeOk (map fst ig) n"
      using "1.prems"(2) Cons by simp_all
    obtain cs where cs: "q' = rest @ cs"
      "\<forall>c\<in>set cs. \<exists>n w. childNode cur n w = Inr c \<and> n \<in> set (map fst ig) \<and> n \<notin> set (getPath cur)"
      using expandNode_queue[OF ex] by blast
    have "\<forall>c\<in>set cs. nodeOk (map fst ig) c"
    proof
      fix c assume "c \<in> set cs"
      then obtain n w where "childNode cur n w = Inr c" "n \<in> set (map fst ig)" "n \<notin> set (getPath cur)"
        using cs(2) by blast
      then show "nodeOk (map fst ig) c" using nodeOk_childNode[OF cur] by blast
    qed
    then have q': "\<forall>n\<in>set q'. nodeOk (map fst ig) n" using cs(1) restok by auto
    show ?thesis
      using "1.IH"[OF Cons up ex refl rec q' entryOk_updateMScores[OF cur "1.prems"(3) up]] .
  qed
qed

lemma initialSearch_Inr:
  "initialSearch grid limit = Inr (ig, q, graphs) \<longleftrightarrow>
     (\<exists>objs agent others.
        convertToGraph grid = Inr ig \<and> findNonObstacles grid = Inr objs
        \<and> findAll ''A'' grid = Inr (agent # others)
        \<and> q = [DLSNode None agent (PInt 0) (PInt limit) 0]
        \<and> graphs = AList.update {} (Some ig) (dictFromKeys (objectPowerset objs) None))"
  by (auto simp: initialSearch_def Let_def split: sum.splits list.splits)

lemma getMScores_Inr:
  assumes "getMScores grid limit = Inr table"
  shows "\<exists>ig objs agent others.
           convertToGraph grid = Inr ig \<and> findNonObstacles grid = Inr objs
           \<and> findAll ''A'' grid = Inr (agent # others)
           \<and> dlsLoop grid ig [DLSNode None agent (PInt 0) (PInt limit) 0] []
                (AList.update {} (Some ig) (dictFromKeys (objectPowerset objs) None)) = Inr table"
proof -
  obtain ig q graphs where i: "initialSearch grid limit = Inr (ig, q, graphs)"
    and l: "dlsLoop grid ig q [] graphs = Inr table"
    using assms by (auto simp: getMScores_def split: sum.splits)
  then show ?thesis using initialSearch_Inr[of grid limit ig q graphs] by auto
qed

lemma getPath_root: "getPath (DLSNode None obj c b s) = [obj]"
  by (simp add: getPath_def)

lemma entryOk_cong: "set k1 = set k2 \<Longrightarrow> entryOk k1 e = entryOk k2 e"
  by (cases e) (simp add: entryOk_def)

lemma agent_is_object:
  assumes "findAll ''A'' grid = Inr (agent # others)" "findNonObstacles grid = Inr objs"
  shows "agent \<in> set objs" and "objIdentifier agent = ''A''"
proof -
  have fa: "foundAt ''A'' grid agent" using findAll_set[OF assms(1)] by auto
  then have "isObject grid agent" by (simp add: isObject_def)
  then show "agent \<in> set objs" using findNonObstacles_set[OF assms(2)] by simp
  show "objIdentifier agent = ''A''" using foundAt_place[OF fa] by simp
qed

lemma getMScores_entries:
  assumes "getMScores grid limit = Inr table" "findNonObstacles grid = Inr objs"
  shows "\<forall>e\<in>set table. entryOk objs e"
proof -
  obtain ig objs' agent others where g: "convertToGraph grid = Inr ig"
    and a: "findAll ''A'' grid = Inr (agent # others)"
    and l: "dlsLoop grid ig [DLSNode None agent (PInt 0) (PInt limit) 0] []
              (AList.update {} (Some ig) (dictFromKeys (objectPowerset objs') None)) = Inr table"
    using getMScores_Inr[OF assms(1)] by blast
  have keys: "set (map fst ig) = set objs" using keys_convertToGraph[OF g assms(2)] .
  have mem: "agent \<in> set (map fst ig)" using agent_is_object(1)[OF a assms(2)] keys by simp
  have ida: "objIdentifier agent = ''A''" by (rule agent_is_object(2)[OF a assms(2)])
  have root: "nodeOk (map fst ig) (DLSNode None agent (PInt 0) (PInt limit) 0)"
    using mem ida by (simp add: nodeOk_def getPath_root coinSum_def)
  have "\<forall>e\<in>set table. entryOk (map fst ig) e"
    using dlsLoop_invariant[OF l] root by simp
  then show ?thesis using entryOk_cong[OF keys] by simp
qed



lemma sum_set_le_sum_list:
  "\<forall>c\<in>set cs. 0 \<le> f c \<Longrightarrow> sum f (set cs) \<le> sum_list (map (f :: 'a \<Rightarrow> int) cs)"
proof (induction cs)
  case Nil
  then show ?case by simp
next
  case (Cons c cs)
  have "sum f (set (c # cs)) \<le> f c + sum f (set cs)"
    using Cons.prems by (cases "c \<in> set cs") (simp_all add: insert_absorb)
  then show ?case using Cons by simp
qed

lemma sum_list_sublist_le:
  assumes "distinct ps" "set ps \<subseteq> set cs" "\<forall>c\<in>set cs. 0 \<le> (f :: 'a \<Rightarrow> int) c"
  shows "sum_list (map f ps) \<le> sum_list (map f cs)"
proof -
  have "sum_list (map f ps) = sum f (set ps)"
    using assms(1) by (simp add: sum_list_distinct_conv_sum_set)
  also have "\<dots> \<le> sum f (set cs)"
    using assms(2,3) by (intro sum_mono2) auto
  also have "\<dots> \<le> sum_list (map f cs)" using assms(3) by (rule sum_set_le_sum_list)
  finally show ?thesis .
qed

section \<open>The search raises no exception on the objects of the grid\<close>

text \<open>
  An edge weight is in order when it is a non-negative integer or MAXDIST: aStarSearch
  returns nothing else as a distance, since the g of every node is at least 0.
\<close>

definition weightOk :: "pynum \<Rightarrow> bool" where
  "weightOk w = ((\<exists>k. 0 \<le> k \<and> w = PInt k) \<or> w = MAXDIST)"

lemma aStarLoop_weight:
  "\<forall>n\<in>set pq. 0 \<le> aG n \<Longrightarrow> weightOk (fst (aStarLoop e g h pq visited))"
proof (induction e g h pq visited rule: aStarLoop.induct)
  case (1 e g h pq visited)
  show ?case
  proof (cases "pq = []")
    case True
    then show ?thesis by (subst aStarLoop.simps) (simp add: weightOk_def)
  next
    case False
    obtain cur pq1 where hp: "heappop pq = (cur, pq1)" by fastforce
    have m: "mset pq = add_mset cur (mset pq1)" using mset_heappop[OF False hp] .
    have "set pq = set_mset (mset pq)" by simp
    also have "\<dots> = insert cur (set pq1)" unfolding m by simp
    finally have c: "0 \<le> aG cur" and r: "\<forall>n\<in>set pq1. 0 \<le> aG n" using "1.prems" by auto
    show ?thesis
    proof (cases "aLoc cur = e")
      case True
      then show ?thesis
        using False hp c by (subst aStarLoop.simps) (simp add: weightOk_def Let_def)
    next
      case ne: False
      let ?V = "insert (aLoc cur) visited"
      let ?pq2 = "pushNeighbours h e cur ?V (getFreeNeighbours (aLoc cur) g) pq1"
      have "\<forall>n\<in>set ?pq2. 0 \<le> aG n"
      proof
        fix n assume "n \<in> set ?pq2"
        then have "n \<in># mset ?pq2" by simp
        then have "n \<in> set pq1 \<or> aG n = aG cur + 1" unfolding mset_pushNeighbours by auto
        then show "0 \<le> aG n" using c r by auto
      qed
      then have "weightOk (fst (aStarLoop e g h ?pq2 ?V))"
        using "1.IH"[OF False hp[symmetric] refl refl ne] by simp
      then show ?thesis using False hp ne by (subst aStarLoop.simps) (simp add: Let_def)
    qed
  qed
qed

lemma aStarSearch_weight: "weightOk (fst (aStarSearch start e g h))"
proof -
  let ?n = "AStarNode None start 0 (h start e)"
  have "set (heappush [] ?n) = set_mset (mset (heappush [] ?n))" by simp
  also have "\<dots> = {?n}" unfolding mset_heappush by simp
  finally have "\<forall>n\<in>set (heappush [] ?n). 0 \<le> aG n" by simp
  then show ?thesis unfolding aStarSearch_def by (rule aStarLoop_weight)
qed

text \<open>
  A graph is full over a set of objects when its keys are that set, every row has the
  same keys and every weight is in order: then no lookup of an edge between two of them
  raises KeyError. convertToGraph builds a full graph over the objects it finds, since
  getDist is called on tiles inside the grid only.
\<close>

definition fullGraph :: "Object set \<Rightarrow> adjMatrix \<Rightarrow> bool" where
  "fullGraph K adj =
     (fst ` set adj = K
      \<and> (\<forall>s row. map_of adj s = Some row \<longrightarrow>
            fst ` set row = K \<and> (\<forall>t w. map_of row t = Some w \<longrightarrow> weightOk w)))"

lemma map_of_foldl_update:
  "map_of (foldl (\<lambda>d k. AList.update k v d) d0 ks) k
     = (if k \<in> set ks then Some v else map_of d0 k)"
  by (induction ks arbitrary: d0) (auto simp: update_conv')

lemma map_of_dictFromKeys:
  "map_of (dictFromKeys ks v) k = (if k \<in> set ks then Some v else None)"
  by (simp add: dictFromKeys_def map_of_foldl_update)

lemma fullGraph_initial: "fullGraph (set ks) (dictFromKeys ks (dictFromKeys ks (PInt 0)))"
  by (auto simp: fullGraph_def keys_dictFromKeys map_of_dictFromKeys weightOk_def split: if_splits)

lemma map_of_Some_keys: "k \<in> fst ` set al \<Longrightarrow> \<exists>v. map_of al k = Some v"
  using map_of_None_keys[of al k] by auto

lemma setEdge_fullGraph:
  assumes "fullGraph K adj" "s \<in> K" "t \<in> K" "weightOk d"
  shows "\<exists>adj'. setEdge adj s t d = Inr adj' \<and> fullGraph K adj'"
proof -
  obtain row where row: "map_of adj s = Some row"
    using assms(1,2) map_of_Some_keys[of s adj] by (auto simp: fullGraph_def)
  have rk: "fst ` set row = K" and rw: "\<forall>t w. map_of row t = Some w \<longrightarrow> weightOk w"
    using assms(1) row by (simp_all add: fullGraph_def)
  let ?adj' = "AList.update s (AList.update t d row) adj"
  have e: "setEdge adj s t d = Inr ?adj'" using row by (simp add: setEdge_def)
  have k: "fst ` set ?adj' = K" using assms(1,2) by (auto simp: keys_update fullGraph_def)
  have "\<forall>s' row'. map_of ?adj' s' = Some row' \<longrightarrow>
          fst ` set row' = K \<and> (\<forall>t w. map_of row' t = Some w \<longrightarrow> weightOk w)"
  proof (intro allI impI)
    fix s' row' assume a: "map_of ?adj' s' = Some row'"
    show "fst ` set row' = K \<and> (\<forall>t w. map_of row' t = Some w \<longrightarrow> weightOk w)"
    proof (cases "s' = s")
      case True
      then have r': "row' = AList.update t d row" using a by (simp add: update_conv')
      have "fst ` set row' = K" unfolding r' using rk assms(3) by (auto simp: keys_update)
      moreover have "\<forall>t' w. map_of row' t' = Some w \<longrightarrow> weightOk w"
        unfolding r' using rw assms(4) by (auto simp: update_conv' split: if_splits)
      ultimately show ?thesis by simp
    next
      case False
      then have "map_of adj s' = Some row'" using a by (simp add: update_conv')
      then show ?thesis using assms(1) by (simp add: fullGraph_def)
    qed
  qed
  then show ?thesis using e k unfolding fullGraph_def by blast
qed

lemma edgeWeight_fullGraph:
  assumes "fullGraph K adj" "s \<in> K" "t \<in> K"
  shows "\<exists>w. edgeWeight adj s t = Inr w \<and> weightOk w"
proof -
  obtain row where row: "map_of adj s = Some row"
    using assms(1,2) map_of_Some_keys[of s adj] by (auto simp: fullGraph_def)
  have "fst ` set row = K" and rw: "\<forall>t w. map_of row t = Some w \<longrightarrow> weightOk w"
    using assms(1) row by (simp_all add: fullGraph_def)
  then obtain w where w: "map_of row t = Some w"
    using assms(3) map_of_Some_keys[of t row] by auto
  then have "weightOk w" using rw by blast
  then show ?thesis using row w by (simp add: edgeWeight_def)
qed

definition inRange :: "string list list \<Rightarrow> Object \<Rightarrow> bool" where
  "inRange grid obj =
     (0 \<le> objX obj \<and> nat (objX obj) < length grid \<and> 0 \<le> objY obj
      \<and> nat (objY obj) < length (grid ! nat (objX obj)))"

lemma getDist_inRange:
  assumes "inRange grid u" "inRange grid v"
  shows "\<exists>d. getDist (loc u) (loc v) grid = Inr d \<and> weightOk d"
proof -
  have lu: "loc u = (int (nat (objX u)), int (nat (objY u)))"
    and lv: "loc v = (int (nat (objX v)), int (nat (objY v)))"
    using assms by (simp_all add: loc_def inRange_def)
  obtain b where "occupancy (loc u) (loc v) grid = Inr b"
    using occupancy_in_range[of "nat (objX u)" grid "nat (objY u)" "nat (objX v)" "nat (objY v)"]
      assms lu lv by (auto simp: inRange_def)
  then show ?thesis using aStarSearch_weight by (simp add: getDist_def)
qed

lemma graphTargets_fullGraph:
  assumes "fullGraph K adj" "s \<in> K" "set ts \<subseteq> K" "inRange grid s" "\<forall>t\<in>set ts. inRange grid t"
  shows "\<exists>adj'. graphTargets grid s ts adj = Inr adj' \<and> fullGraph K adj'"
  using assms
proof (induction ts arbitrary: adj)
  case Nil
  then show ?case by simp
next
  case (Cons t ts)
  obtain d where d: "getDist (loc s) (loc t) grid = Inr d" "weightOk d"
    using getDist_inRange[of grid s t] Cons.prems by auto
  obtain a1 where a1: "setEdge adj s t d = Inr a1" "fullGraph K a1"
    using setEdge_fullGraph[of K adj s t d] Cons.prems d(2) by auto
  obtain a2 where a2: "setEdge a1 t s d = Inr a2" "fullGraph K a2"
    using setEdge_fullGraph[of K a1 t s d] a1(2) Cons.prems d(2) by auto
  obtain adj' where "graphTargets grid s ts a2 = Inr adj'" "fullGraph K adj'"
    using Cons.IH[of a2] a2(2) Cons.prems by auto
  then show ?case using d(1) a1(1) a2(1) by simp
qed

lemma graphSources_fullGraph:
  assumes "fullGraph K adj" "set ss \<subseteq> K" "\<forall>s\<in>set ss. inRange grid s"
  shows "\<exists>adj'. graphSources grid ss adj = Inr adj' \<and> fullGraph K adj'"
  using assms
proof (induction ss arbitrary: adj)
  case Nil
  then show ?case by simp
next
  case (Cons s ss)
  obtain a1 where a1: "graphTargets grid s ss adj = Inr a1" "fullGraph K a1"
    using graphTargets_fullGraph[of K adj s ss grid] Cons.prems by auto
  obtain adj' where "graphSources grid ss a1 = Inr adj'" "fullGraph K adj'"
    using Cons.IH[of a1] a1(2) Cons.prems by auto
  then show ?case using a1(1) by simp
qed

lemma isObject_inRange: "isObject grid obj \<Longrightarrow> inRange grid obj"
  using isObject_place[of grid obj] by (simp add: inRange_def)

lemma convertToGraph_fullGraph:
  assumes "findNonObstacles grid = Inr objs"
  shows "\<exists>ig. convertToGraph grid = Inr ig \<and> fullGraph (set objs) ig"
proof -
  have "\<forall>s\<in>set objs. inRange grid s"
    using findNonObstacles_set[OF assms] isObject_inRange by auto
  then obtain ig where
    "graphSources grid objs (dictFromKeys objs (dictFromKeys objs (PInt 0))) = Inr ig"
    "fullGraph (set objs) ig"
    using graphSources_fullGraph[OF fullGraph_initial, of objs objs grid] by auto
  then show ?thesis using assms by (simp add: convertToGraph_def)
qed

text \<open>
  omitFromGrid on objects of the grid: the result has the shape of the grid, holds
  \<open>.\<close> at the tiles of the objects and the old tile elsewhere. findAll still succeeds
  on it and still finds every object that was not erased. Every set of objects of the
  grid is a key of the cache.
\<close>

definition erased :: "string list list \<Rightarrow> Object set \<Rightarrow> string list list \<Rightarrow> bool" where
  "erased grid V grid' =
     (length grid' = length grid
      \<and> (\<forall>x<length grid. length (grid' ! x) = length (grid ! x)
            \<and> (\<forall>y<length (grid ! x).
                  grid' ! x ! y = (if (int x, int y) \<in> loc ` V then ''.'' else grid ! x ! y))))"

lemma erased_step:
  assumes "erased grid V g1" "inRange grid obj"
  shows "erased grid (insert obj V) (g1[nat (objX obj) := (g1 ! nat (objX obj))[nat (objY obj) := ''.'']])"
proof -
  let ?i = "nat (objX obj)" and ?j = "nat (objY obj)"
  have lo: "loc obj = (int ?i, int ?j)" using assms(2) by (simp add: loc_def inRange_def)
  have len: "length g1 = length grid" and
    cols: "\<And>x. x < length grid \<Longrightarrow> length (g1 ! x) = length (grid ! x)" and
    cells: "\<And>x y. x < length grid \<Longrightarrow> y < length (grid ! x) \<Longrightarrow>
       g1 ! x ! y = (if (int x, int y) \<in> loc ` V then ''.'' else grid ! x ! y)"
    using assms(1) by (simp_all add: erased_def)
  let ?g2 = "g1[?i := (g1 ! ?i)[?j := ''.'']]"
  have "\<And>x y. x < length grid \<Longrightarrow> y < length (grid ! x) \<Longrightarrow>
       ?g2 ! x ! y = (if (int x, int y) \<in> loc ` insert obj V then ''.'' else grid ! x ! y)"
  proof -
    fix x y assume xy: "x < length grid" "y < length (grid ! x)"
    show "?g2 ! x ! y = (if (int x, int y) \<in> loc ` insert obj V then ''.'' else grid ! x ! y)"
    proof (cases "(x, y) = (?i, ?j)")
      case True
      then have "?g2 ! x ! y = ''.''" using xy len cols by simp
      moreover have "(int x, int y) = loc obj" using True lo by simp
      ultimately show ?thesis by simp
    next
      case False
      have "?g2 ! x ! y = g1 ! x ! y"
      proof (cases "x = ?i")
        case True
        then have "y \<noteq> ?j" using False by simp
        then show ?thesis using True xy len by simp
      next
        case False
        then show ?thesis by simp
      qed
      moreover have "(int x, int y) \<noteq> loc obj" using False lo by auto
      ultimately show ?thesis using cells[OF xy] by simp
    qed
  qed
  moreover have "length ?g2 = length grid" using len by simp
  moreover have "\<And>x. x < length grid \<Longrightarrow> length (?g2 ! x) = length (grid ! x)"
  proof -
    fix x assume x: "x < length grid"
    show "length (?g2 ! x) = length (grid ! x)"
      using cols[OF x] x len by (cases "x = ?i") simp_all
  qed
  ultimately show ?thesis unfolding erased_def by blast
qed

lemma omitFromGrid_erased:
  assumes "\<forall>obj\<in>set vs. inRange grid obj" "erased grid V g1"
  shows "\<exists>g'. omitFromGrid g1 vs = Inr g' \<and> erased grid (V \<union> set vs) g'"
  using assms
proof (induction vs arbitrary: g1 V)
  case Nil
  then show ?case by simp
next
  case (Cons obj vs)
  let ?i = "nat (objX obj)" and ?j = "nat (objY obj)"
  have r: "inRange grid obj" using Cons.prems(1) by simp
  have i: "?i < length g1" and j: "?j < length (g1 ! ?i)"
    using r Cons.prems(2) by (simp_all add: inRange_def erased_def)
  have "pySet2 g1 (int ?i) (int ?j) ''.'' = Inr (g1[?i := (g1 ! ?i)[?j := ''.'']])"
    using i j by (rule pySet2_in_range)
  then have s: "pySet2 g1 (objX obj) (objY obj) ''.'' = Inr (g1[?i := (g1 ! ?i)[?j := ''.'']])"
    using r by (simp add: inRange_def)
  have e: "erased grid (insert obj V) (g1[?i := (g1 ! ?i)[?j := ''.'']])"
    using erased_step[OF Cons.prems(2) r] .
  obtain g' where "omitFromGrid (g1[?i := (g1 ! ?i)[?j := ''.'']]) vs = Inr g'"
    "erased grid (insert obj V \<union> set vs) g'"
    using Cons.IH[OF _ e] Cons.prems(1) by auto
  then show ?case using s by simp
qed

lemma erased_refl: "erased grid {} grid"
  by (simp add: erased_def)

lemma omitFromGrid_ok:
  assumes "\<forall>obj\<in>set vs. inRange grid obj"
  shows "\<exists>g'. omitFromGrid grid vs = Inr g' \<and> erased grid (set vs) g'"
  using omitFromGrid_erased[OF assms erased_refl] by simp

lemma tileOk_dot: "t \<in> {''A'', ''C'', ''SD''} \<Longrightarrow> tileOk t ''.''"
  by (auto simp: tileOk_def)

lemma findAll_erased_ok:
  assumes "findAll t grid = Inr objs" "erased grid V grid'" "t \<in> {''A'', ''C'', ''SD''}"
  shows "\<exists>objs'. findAll t grid' = Inr objs'"
proof -
  have ok: "list_all (list_all (tileOk t)) grid" using findAll_ok[of t grid] assms(1) by blast
  have "list_all (list_all (tileOk t)) grid'"
    unfolding list_all_length
  proof (intro allI impI)
    fix x y assume x: "x < length grid'" and y: "y < length (grid' ! x)"
    have x': "x < length grid" and y': "y < length (grid ! x)"
      using x y assms(2) by (simp_all add: erased_def)
    have "grid' ! x ! y = ''.'' \<or> grid' ! x ! y = grid ! x ! y"
      using assms(2) x' y' by (simp add: erased_def)
    moreover have "tileOk t (grid ! x ! y)" using ok x' y' by (simp add: list_all_length)
    ultimately show "tileOk t (grid' ! x ! y)" using tileOk_dot[OF assms(3)] by auto
  qed
  then show ?thesis using findAll_ok[of t grid'] by blast
qed

lemma foundAt_erased:
  assumes "foundAt t grid obj" "erased grid V grid'" "loc obj \<notin> loc ` V"
  shows "foundAt t grid' obj"
proof -
  obtain i j where ij: "i < length grid" "j < length (grid ! i)"
    "findTile t (int i) (int j) (grid ! i ! j) = Inr [obj]"
    using assms(1) by (auto simp: foundAt_def)
  have "loc obj = (int i, int j)" using findTile_Inr_single[OF ij(3)] by (simp add: loc_def)
  then have "grid' ! i ! j = grid ! i ! j"
    using assms(2,3) ij(1,2) by (simp add: erased_def)
  moreover have "i < length grid'" "j < length (grid' ! i)"
    using assms(2) ij(1,2) by (simp_all add: erased_def)
  ultimately show ?thesis using ij(3) unfolding foundAt_def
    by (intro exI[of _ i] conjI exI[of _ j]) simp_all
qed

lemma findNonObstacles_erased:
  assumes "findNonObstacles grid = Inr objs" "erased grid V grid'" "V \<subseteq> set objs"
  shows "\<exists>objs'. findNonObstacles grid' = Inr objs' \<and> set objs - V \<subseteq> set objs'
                  \<and> (\<forall>obj\<in>set objs'. inRange grid' obj)"
proof -
  obtain agents coins buttons where f: "findAll ''A'' grid = Inr agents"
    "findAll ''C'' grid = Inr coins" "findAll ''SD'' grid = Inr buttons"
    using assms(1) findNonObstacles_Inr[of grid objs] by auto
  obtain a' where a': "findAll ''A'' grid' = Inr a'"
    using findAll_erased_ok[OF f(1) assms(2)] by auto
  obtain c' where c': "findAll ''C'' grid' = Inr c'"
    using findAll_erased_ok[OF f(2) assms(2)] by auto
  obtain b' where b': "findAll ''SD'' grid' = Inr b'"
    using findAll_erased_ok[OF f(3) assms(2)] by auto
  have n': "findNonObstacles grid' = Inr (a' @ c' @ b')"
    using a' c' b' by (simp add: findNonObstacles_Inr)
  have "set objs - V \<subseteq> set (a' @ c' @ b')"
  proof
    fix obj assume o: "obj \<in> set objs - V"
    then have io: "isObject grid obj" using findNonObstacles_set[OF assms(1)] by simp
    have "loc obj \<notin> loc ` V"
    proof
      assume "loc obj \<in> loc ` V"
      then obtain v where v: "v \<in> V" "loc obj = loc v" by auto
      then have "isObject grid v" using assms(3) findNonObstacles_set[OF assms(1)] by auto
      then have "obj = v" using isObject_same_tile[OF io _ v(2)] by simp
      then show False using o v(1) by simp
    qed
    then have "isObject grid' obj"
      using io foundAt_erased[OF _ assms(2)] by (auto simp: isObject_def)
    then show "obj \<in> set (a' @ c' @ b')" using findNonObstacles_set[OF n'] by simp
  qed
  moreover have "\<forall>obj\<in>set (a' @ c' @ b'). inRange grid' obj"
    using findNonObstacles_set[OF n'] isObject_inRange by auto
  ultimately show ?thesis using n' by blast
qed

lemma combinations_filter: "filter P xs \<in> set (combinations xs (length (filter P xs)))"
proof (induction xs)
  case Nil
  then show ?case by simp
next
  case (Cons x xs)
  show ?case
  proof (cases "P x")
    case True
    then show ?thesis using Cons by simp
  next
    case False
    then show ?thesis using Cons by (cases "length (filter P xs)") simp_all
  qed
qed

lemma subset_in_objectPowerset:
  assumes "V \<subseteq> set objs"
  shows "V \<in> set (objectPowerset objs)"
proof -
  let ?ys = "filter (\<lambda>obj. obj \<in> V) objs"
  have v: "set ?ys = V" using assms by auto
  have m: "?ys \<in> set (combinations objs (length ?ys))" by (rule combinations_filter)
  have "length ?ys < length objs + 1"
    by (metis length_filter_le le_imp_less_Suc Suc_eq_plus1)
  then have idx: "length ?ys \<in> set [0 ..< length objs + 1]"
    by (simp only: set_upt atLeastLessThan_iff) simp
  have "?ys \<in> set (concat (map (combinations objs) [0 ..< length objs + 1]))"
    unfolding set_concat set_map using m idx by blast
  then have "set ?ys \<in> set (objectPowerset objs)"
    unfolding objectPowerset_def set_map by (rule imageI)
  then show ?thesis using v by simp
qed

text \<open>
  The cache is in order when every set of objects has an entry and every graph stored
  for a set V is full over a set that contains the objects outside V. A node is in order
  when its path has no repetition and consists of objects of the grid. Then the
  expansion of a node raises nothing but the OverflowError of a child's arithmetic.
\<close>

definition graphsOk :: "Object list \<Rightarrow> graphs \<Rightarrow> bool" where
  "graphsOk objs graphs =
     ((\<forall>V. V \<subseteq> set objs \<longrightarrow> map_of graphs V \<noteq> None)
      \<and> (\<forall>V ag. map_of graphs V = Some (Some ag) \<longrightarrow> (\<exists>K. fullGraph K ag \<and> set objs - V \<subseteq> K)))"

definition pathOk :: "Object list \<Rightarrow> DLSNode \<Rightarrow> bool" where
  "pathOk objs node = (distinct (getPath node) \<and> set (getPath node) \<subseteq> set objs)"

lemma pathOk_childNode:
  "pathOk objs cur \<Longrightarrow> n \<in> set objs \<Longrightarrow> n \<notin> set (getPath cur) \<Longrightarrow> childNode cur n w = Inr c
     \<Longrightarrow> pathOk objs c"
  by (simp add: pathOk_def childNode_Inr(1))

lemma getAlteredGraph_ok:
  assumes objs: "findNonObstacles grid = Inr objs" and gok: "graphsOk objs graphs"
    and pok: "pathOk objs node"
  shows "\<exists>ag graphs'. getAlteredGraph grid node graphs = Inr (ag, graphs') \<and> graphsOk objs graphs'
           \<and> (\<exists>K. fullGraph K ag \<and> set objs - getVisited node \<subseteq> K)"
proof -
  let ?V = "getVisited node"
  have vsub: "?V \<subseteq> set objs"
    using pok getPath_visited[of node] by (auto simp: pathOk_def getVisited_def)
  then obtain c where c: "map_of graphs ?V = Some c"
    using gok by (auto simp: graphsOk_def)
  show ?thesis
  proof (cases c)
    case (Some ag)
    then have "getAlteredGraph grid node graphs = Inr (ag, graphs)"
      using c by (simp add: getAlteredGraph_def)
    moreover have "\<exists>K. fullGraph K ag \<and> set objs - ?V \<subseteq> K"
      using gok c Some by (simp add: graphsOk_def)
    ultimately show ?thesis using gok by blast
  next
    case None
    have "\<forall>obj\<in>set (getVisitedList node). inRange grid obj"
      using vsub findNonObstacles_set[OF objs] isObject_inRange by (auto simp: getVisited_def)
    then obtain g' where g': "omitFromGrid grid (getVisitedList node) = Inr g'"
      "erased grid ?V g'"
      using omitFromGrid_ok[of "getVisitedList node" grid] by (auto simp: getVisited_def)
    obtain objs' where objs': "findNonObstacles g' = Inr objs'" "set objs - ?V \<subseteq> set objs'"
      using findNonObstacles_erased[OF objs g'(2) vsub] by blast
    obtain ag where ag: "convertToGraph g' = Inr ag" "fullGraph (set objs') ag"
      using convertToGraph_fullGraph[OF objs'(1)] by blast
    let ?graphs' = "AList.update ?V (Some ag) graphs"
    have r: "getAlteredGraph grid node graphs = Inr (ag, ?graphs')"
      using c None g'(1) ag(1) by (simp add: getAlteredGraph_def)
    have k: "\<exists>K. fullGraph K ag \<and> set objs - ?V \<subseteq> K" using ag(2) objs'(2) by blast
    have "graphsOk objs ?graphs'"
      unfolding graphsOk_def
    proof (intro conjI allI impI)
      fix W assume "W \<subseteq> set objs"
      then show "map_of ?graphs' W \<noteq> None"
        using gok by (simp add: graphsOk_def update_conv')
    next
      fix W a assume a: "map_of ?graphs' W = Some (Some a)"
      show "\<exists>K. fullGraph K a \<and> set objs - W \<subseteq> K"
      proof (cases "W = ?V")
        case True
        then have "a = ag" using a by (simp add: update_conv')
        then show ?thesis using k True by simp
      next
        case False
        then have "map_of graphs W = Some (Some a)" using a by (simp add: update_conv')
        then show ?thesis using gok by (simp add: graphsOk_def)
      qed
    qed
    then show ?thesis using r k by blast
  qed
qed

text \<open>
  The arithmetic of the search. It raises nothing but OverflowError. It is exact, and
  raises nothing, as long as the default limit and the values of all time-extension
  devices add up to at most 2^53 and no device has a negative value: the cost of a node
  and its budget are then both integers or both floats, of values c and b with c at
  least 0 and c + b the default limit plus the values of the devices on the path, and a
  float budget is at least 0.
\<close>

fun isFloat :: "pynum \<Rightarrow> bool" where
  "isFloat (PInt a) = False"
| "isFloat (PFloat f) = True"

definition sdSum :: "Object list \<Rightarrow> int" where
  "sdSum path = sum_list (map objValue (filter (\<lambda>obj. objIdentifier obj = ''SD'') path))"

definition numOk :: "int \<Rightarrow> DLSNode \<Rightarrow> bool" where
  "numOk limit node =
     (\<exists>c b. valOf (dCost node) = Fin c \<and> valOf (dBudget node) = Fin b
        \<and> 0 \<le> c \<and> c + b = limit + sdSum (getPath node)
        \<and> isFloat (dCost node) = isFloat (dBudget node)
        \<and> (isFloat (dCost node) \<longrightarrow> 0 \<le> b))"

definition exactRange :: "Object list \<Rightarrow> int \<Rightarrow> bool" where
  "exactRange objs limit =
     ((\<forall>obj\<in>set objs. objIdentifier obj = ''SD'' \<longrightarrow> 0 \<le> objValue obj)
      \<and> limit + sdSum objs \<le> 2 ^ 53)"

lemma roundDouble_exact: "\<bar>n\<bar> \<le> 2 ^ 53 \<Longrightarrow> roundDouble n = Fin n"
  by (simp add: roundDouble_def)

lemma toFloat_exact: "valOf x = Fin a \<Longrightarrow> \<bar>a\<bar> \<le> 2 ^ 53 \<Longrightarrow> toFloat x = Inr (Fin a)"
  by (cases x) (simp_all add: toFloat_def roundDouble_exact)

lemma toFloat_error: "toFloat x = Inl e \<Longrightarrow> e = OverflowError"
  by (auto simp: toFloat_def split: pynum.splits pyfloat.splits)

lemma floatOp_error: "floatOp f x y = Inl e \<Longrightarrow> e = OverflowError"
  by (auto simp: floatOp_def split: sum.splits dest: toFloat_error)

lemma pyAdd_error: "pyAdd x y = Inl e \<Longrightarrow> e = OverflowError"
  by (cases x; cases y) (auto dest: floatOp_error)

lemma pySub_error: "pySub x y = Inl e \<Longrightarrow> e = OverflowError"
  by (cases x; cases y) (auto dest: floatOp_error)

lemma getTrajLen_error: "getTrajLen node = Inl e \<Longrightarrow> e = OverflowError"
  unfolding getTrajLen_def by (rule pyAdd_error)

lemma updateMScores_error: "updateMScores node ms = Inl e \<Longrightarrow> e = OverflowError"
  by (auto simp: updateMScores_def split: sum.splits dest: getTrajLen_error)

lemma childNode_error: "childNode cur n w = Inl e \<Longrightarrow> e = OverflowError"
  by (auto simp: childNode_def split: sum.splits if_splits dest: pyAdd_error pySub_error)

lemma pyAdd_exact:
  assumes "valOf x = Fin a" "valOf y = Fin b" "\<bar>a\<bar> \<le> 2 ^ 53" "\<bar>b\<bar> \<le> 2 ^ 53" "\<bar>a + b\<bar> \<le> 2 ^ 53"
  shows "\<exists>z. pyAdd x y = Inr z \<and> valOf z = Fin (a + b) \<and> isFloat z = (isFloat x \<or> isFloat y)"
proof (cases "isFloat x \<or> isFloat y")
  case False
  then show ?thesis using assms(1,2) by (cases x; cases y) simp_all
next
  case True
  have "pyAdd x y = floatOp floatAdd x y" using True by (cases x; cases y) simp_all
  also have "\<dots> = Inr (PFloat (floatAdd (Fin a) (Fin b)))"
    using toFloat_exact[OF assms(1,3)] toFloat_exact[OF assms(2,4)] by (simp add: floatOp_def)
  also have "\<dots> = Inr (PFloat (Fin (a + b)))" using assms(5) by (simp add: roundDouble_exact)
  finally show ?thesis using True by simp
qed

lemma pySub_exact:
  assumes "valOf x = Fin a" "valOf y = Fin b" "\<bar>a\<bar> \<le> 2 ^ 53" "\<bar>b\<bar> \<le> 2 ^ 53" "\<bar>a - b\<bar> \<le> 2 ^ 53"
  shows "\<exists>z. pySub x y = Inr z \<and> valOf z = Fin (a - b) \<and> isFloat z = (isFloat x \<or> isFloat y)"
proof (cases "isFloat x \<or> isFloat y")
  case False
  then show ?thesis using assms(1,2) by (cases x; cases y) simp_all
next
  case True
  have "pySub x y = floatOp (\<lambda>fx fy. floatAdd fx (floatNeg fy)) x y"
    using True by (cases x; cases y) simp_all
  also have "\<dots> = Inr (PFloat (floatAdd (Fin a) (floatNeg (Fin b))))"
    using toFloat_exact[OF assms(1,3)] toFloat_exact[OF assms(2,4)] by (simp add: floatOp_def)
  also have "\<dots> = Inr (PFloat (Fin (a - b)))" using assms(5) by (simp add: roundDouble_exact)
  finally show ?thesis using True by simp
qed

lemma weightOk_value: "weightOk w \<Longrightarrow> \<exists>k. valOf w = Fin k \<and> 0 \<le> k"
  by (auto simp: weightOk_def MAXDIST_def)

lemma sdSum_append: "sdSum (path @ [n]) = sdSum path + (if objIdentifier n = ''SD'' then objValue n else 0)"
  by (simp add: sdSum_def)

lemma getTrajLen_exact:
  assumes "numOk limit node" "limit + sdSum (getPath node) \<le> 2 ^ 53"
  shows "\<exists>L. getTrajLen node = Inr L \<and> valOf L = Fin (limit + sdSum (getPath node))
           \<and> isFloat L = isFloat (dCost node)"
proof -
  obtain c b where cb: "valOf (dCost node) = Fin c" "valOf (dBudget node) = Fin b" "0 \<le> c"
    "c + b = limit + sdSum (getPath node)" "isFloat (dCost node) = isFloat (dBudget node)"
    "isFloat (dCost node) \<longrightarrow> 0 \<le> b"
    using assms(1) unfolding numOk_def by blast
  show ?thesis
  proof (cases "isFloat (dCost node)")
    case False
    then obtain c' b' where "dCost node = PInt c'" "dBudget node = PInt b'"
      using cb(5) by (cases "dCost node"; cases "dBudget node") simp_all
    then show ?thesis using cb(1,2,4) by (simp add: getTrajLen_def)
  next
    case True
    then have b: "0 \<le> b" using cb(6) by simp
    have "\<bar>c\<bar> \<le> 2 ^ 53" "\<bar>b\<bar> \<le> 2 ^ 53" "\<bar>c + b\<bar> \<le> 2 ^ 53"
      using cb(3,4) b assms(2) by simp_all
    from pyAdd_exact[OF cb(1,2) this] show ?thesis
      unfolding getTrajLen_def using cb(4,5) by auto
  qed
qed

lemma numOk_child:
  assumes "numOk limit cur" "weightOk w" "\<not> pyGt w (dBudget cur)"
    and "limit + sdSum (getPath cur @ [n]) \<le> 2 ^ 53"
    and "objIdentifier n = ''SD'' \<longrightarrow> 0 \<le> objValue n"
  shows "\<exists>c. childNode cur n w = Inr c \<and> numOk limit c"
proof -
  obtain c b where cb: "valOf (dCost cur) = Fin c" "valOf (dBudget cur) = Fin b" "0 \<le> c"
    "c + b = limit + sdSum (getPath cur)" "isFloat (dCost cur) = isFloat (dBudget cur)"
    using assms(1) unfolding numOk_def by blast
  obtain k where k: "valOf w = Fin k" "0 \<le> k" using weightOk_value[OF assms(2)] by blast
  define sd where "sd = (objIdentifier n = ''SD'')"
  define v where "v = (if sd then objValue n else 0)"
  have v: "0 \<le> v" using assms(5) by (simp add: v_def sd_def)
  have kb: "k \<le> b" using assms(3) cb(2) k(1) by (simp add: pyGt_def)
  have sa: "sdSum (getPath cur @ [n]) = sdSum (getPath cur) + v"
    unfolding sdSum_append v_def sd_def by simp
  have top: "c + b + v \<le> 2 ^ 53" using assms(4) cb(4) by (simp add: sa)
  have r1: "\<bar>c\<bar> \<le> 2 ^ 53" "\<bar>k\<bar> \<le> 2 ^ 53" "\<bar>c + k\<bar> \<le> 2 ^ 53"
    using cb(3) k(2) kb v top by simp_all
  have r2: "\<bar>b\<bar> \<le> 2 ^ 53" "\<bar>b - k\<bar> \<le> 2 ^ 53"
    using cb(3) k(2) kb v top by simp_all
  have r3: "\<bar>v\<bar> \<le> 2 ^ 53" "\<bar>b - k + v\<bar> \<le> 2 ^ 53"
    using cb(3) k(2) kb v top by simp_all
  obtain cost where cost: "pyAdd (dCost cur) w = Inr cost" "valOf cost = Fin (c + k)"
    "isFloat cost = (isFloat (dCost cur) \<or> isFloat w)"
    using pyAdd_exact[OF cb(1) k(1) r1] by blast
  obtain b1 where b1: "pySub (dBudget cur) w = Inr b1" "valOf b1 = Fin (b - k)"
    "isFloat b1 = (isFloat (dBudget cur) \<or> isFloat w)"
    using pySub_exact[OF cb(2) k(1) r2(1) r1(2) r2(2)] by blast
  have vv: "valOf (PInt v) = Fin v" by simp
  obtain b2 where b2: "pyAdd b1 (PInt v) = Inr b2" "valOf b2 = Fin (b - k + v)"
    "isFloat b2 = (isFloat b1 \<or> isFloat (PInt v))"
    using pyAdd_exact[OF b1(2) vv r2(2) r3] by blast
  define budget where "budget = (if sd then b2 else b1)"
  have "(if sd then pyAdd b1 (PInt (objValue n)) else Inr b1) = Inr budget"
    using b2(1) by (cases sd) (simp_all add: budget_def v_def)
  then have bud: "(if objIdentifier n = ''SD'' then pyAdd b1 (PInt (objValue n)) else Inr b1)
                    = Inr budget"
    unfolding sd_def .
  have bv: "valOf budget = Fin (b - k + v)" "isFloat budget = isFloat b1"
    using b1(2) b2(2,3) by (cases sd; simp add: budget_def v_def)+
  define child where "child = DLSNode (Some cur) n cost budget
     (dScore cur + (if objIdentifier n = ''C'' then objValue n else 0))"
  have ch: "childNode cur n w = Inr child"
    by (simp only: childNode_def child_def cost(1) b1(1) sum.case bud)
  have p: "getPath child = getPath cur @ [n]" by (rule childNode_Inr(1)[OF ch])
  have "valOf (dCost child) = Fin (c + k)" using cost(2) by (simp add: child_def)
  moreover have "valOf (dBudget child) = Fin (b - k + v)" using bv(1) by (simp add: child_def)
  moreover have "0 \<le> c + k" using cb(3) k(2) by simp
  moreover have "c + k + (b - k + v) = limit + sdSum (getPath child)"
    using cb(4) by (simp add: p sa)
  moreover have "isFloat (dCost child) = isFloat (dBudget child)"
    using cost(3) bv(2) b1(3) cb(5) by (simp add: child_def)
  moreover have "0 \<le> b - k + v" using kb v by simp
  ultimately have "numOk limit child" unfolding numOk_def by blast
  then show ?thesis using ch by blast
qed

lemma sdSum_path_le:
  assumes "distinct path" "set path \<subseteq> set objs"
    and "\<forall>obj\<in>set objs. objIdentifier obj = ''SD'' \<longrightarrow> 0 \<le> objValue obj"
  shows "sdSum path \<le> sdSum objs"
  unfolding sdSum_def
  using assms by (intro sum_list_sublist_le) auto

lemma pathOk_range:
  assumes "pathOk objs node" "exactRange objs limit"
  shows "limit + sdSum (getPath node) \<le> 2 ^ 53"
proof -
  have "sdSum (getPath node) \<le> sdSum objs"
    using assms by (intro sdSum_path_le) (simp_all add: pathOk_def exactRange_def)
  then show ?thesis using assms(2) by (simp add: exactRange_def)
qed

text \<open>
  One expansion: either it succeeds and appends children to the queue, each made for a
  neighbour off the path from an edge weight that is in order and within the budget, or
  the arithmetic of such a child raises OverflowError.
\<close>

definition childOf :: "DLSNode \<Rightarrow> Object list \<Rightarrow> DLSNode \<Rightarrow> bool" where
  "childOf node ns c =
     (\<exists>n w. childNode node n w = Inr c \<and> n \<in> set ns \<and> n \<notin> set (getPath node)
        \<and> weightOk w \<and> \<not> pyGt w (dBudget node))"

definition childFails :: "DLSNode \<Rightarrow> Object list \<Rightarrow> bool" where
  "childFails node ns =
     (\<exists>n w. childNode node n w = Inl OverflowError \<and> n \<in> set ns \<and> n \<notin> set (getPath node)
        \<and> weightOk w \<and> \<not> pyGt w (dBudget node))"

lemma childOf_Cons: "childOf node ns c \<Longrightarrow> childOf node (n # ns) c"
  unfolding childOf_def by (metis list.set_intros(2))

lemma childFails_Cons: "childFails node ns \<Longrightarrow> childFails node (n # ns)"
  unfolding childFails_def by (metis list.set_intros(2))

lemma expandNode_step:
  assumes objs: "findNonObstacles grid = Inr objs" and pok: "pathOk objs node"
  shows "graphsOk objs graphs \<Longrightarrow> set ns \<subseteq> set objs \<Longrightarrow>
           (\<exists>cs graphs'. expandNode grid node ns q graphs = Inr (q @ cs, graphs')
               \<and> graphsOk objs graphs' \<and> (\<forall>c\<in>set cs. childOf node ns c))
           \<or> (expandNode grid node ns q graphs = Inl OverflowError \<and> childFails node ns)"
proof (induction ns arbitrary: q graphs)
  case Nil
  then show ?case by simp
next
  case (Cons n ns)
  obtain ag g1 K where ag: "getAlteredGraph grid node graphs = Inr (ag, g1)" "graphsOk objs g1"
    "fullGraph K ag" "set objs - getVisited node \<subseteq> K"
    using getAlteredGraph_ok[OF objs Cons.prems(1) pok] by blast
  have ns: "set ns \<subseteq> set objs" using Cons.prems(2) by simp
  have lift: "(\<exists>cs graphs'. expandNode grid node (n # ns) q graphs = Inr (q @ cs, graphs')
               \<and> graphsOk objs graphs' \<and> (\<forall>c\<in>set cs. childOf node (n # ns) c))
           \<or> (expandNode grid node (n # ns) q graphs = Inl OverflowError \<and> childFails node (n # ns))"
    if e: "expandNode grid node (n # ns) q graphs = expandNode grid node ns (q @ pre) g1"
      and pre: "\<forall>c\<in>set pre. childOf node (n # ns) c" for pre
  proof -
    from Cons.IH[OF ag(2) ns, of "q @ pre"] show ?thesis
    proof
      assume "\<exists>cs graphs'. expandNode grid node ns (q @ pre) g1 = Inr ((q @ pre) @ cs, graphs')
               \<and> graphsOk objs graphs' \<and> (\<forall>c\<in>set cs. childOf node ns c)"
      then obtain cs graphs' where r: "expandNode grid node ns (q @ pre) g1 = Inr ((q @ pre) @ cs, graphs')"
        "graphsOk objs graphs'" "\<forall>c\<in>set cs. childOf node ns c" by blast
      have "expandNode grid node (n # ns) q graphs = Inr (q @ (pre @ cs), graphs')"
        using e r(1) by simp
      moreover have "\<forall>c\<in>set (pre @ cs). childOf node (n # ns) c"
        using pre r(3) childOf_Cons by auto
      ultimately show ?thesis using r(2) by blast
    next
      assume "expandNode grid node ns (q @ pre) g1 = Inl OverflowError \<and> childFails node ns"
      then show ?thesis using e childFails_Cons by simp
    qed
  qed
  show ?case
  proof (cases "n \<in> set (getPath node)")
    case True
    then have "expandNode grid node (n # ns) q graphs = expandNode grid node ns (q @ []) g1"
      using ag(1) by simp
    then show ?thesis by (rule lift) simp
  next
    case False
    have p: "getPath node = getVisitedList node @ [dObj node]" by (rule getPath_visited)
    have "dObj node \<in> set objs - getVisited node"
      using pok p by (auto simp: pathOk_def getVisited_def)
    moreover have "n \<in> set objs - getVisited node"
      using False Cons.prems(2) p by (auto simp: getVisited_def)
    ultimately obtain w where w: "edgeWeight ag (dObj node) n = Inr w" "weightOk w"
      using edgeWeight_fullGraph[OF ag(3), of "dObj node" n] ag(4) by blast
    show ?thesis
    proof (cases "pyGt w (dBudget node)")
      case True
      then have "expandNode grid node (n # ns) q graphs = expandNode grid node ns (q @ []) g1"
        using ag(1) w(1) False by simp
      then show ?thesis by (rule lift) simp
    next
      case nb: False
      show ?thesis
      proof (cases "childNode node n w")
        case (Inl e)
        then have e: "e = OverflowError" by (rule childNode_error)
        have "expandNode grid node (n # ns) q graphs = Inl OverflowError"
          using ag(1) w(1) False nb Inl e by simp
        moreover have "childFails node (n # ns)"
          unfolding childFails_def using Inl e False w(2) nb by auto
        ultimately show ?thesis by simp
      next
        case (Inr child)
        then have "expandNode grid node (n # ns) q graphs = expandNode grid node ns (q @ [child]) g1"
          using ag(1) w(1) False nb by simp
        moreover have "\<forall>c\<in>set [child]. childOf node (n # ns) c"
          unfolding childOf_def using Inr False w(2) nb by auto
        ultimately show ?thesis by (rule lift)
      qed
    qed
  qed
qed

lemma childOf_pathOk:
  assumes "pathOk objs node" "set ns \<subseteq> set objs" "childOf node ns c"
  shows "pathOk objs c"
proof -
  obtain n w where "childNode node n w = Inr c" "n \<in> set ns" "n \<notin> set (getPath node)"
    using assms(3) unfolding childOf_def by blast
  then show ?thesis using pathOk_childNode[OF assms(1), of n w c] assms(2) by auto
qed

lemma childOf_numOk:
  assumes "pathOk objs node" "set ns \<subseteq> set objs" "childOf node ns c"
    and "numOk limit node" "exactRange objs limit"
  shows "numOk limit c"
proof -
  obtain n w where nw: "childNode node n w = Inr c" "n \<in> set ns" "n \<notin> set (getPath node)"
    "weightOk w" "\<not> pyGt w (dBudget node)"
    using assms(3) unfolding childOf_def by blast
  have "pathOk objs c" by (rule childOf_pathOk[OF assms(1,2,3)])
  then have "limit + sdSum (getPath c) \<le> 2 ^ 53" using assms(5) by (rule pathOk_range)
  then have r: "limit + sdSum (getPath node @ [n]) \<le> 2 ^ 53"
    by (simp add: childNode_Inr(1)[OF nw(1)])
  have "objIdentifier n = ''SD'' \<longrightarrow> 0 \<le> objValue n"
    using assms(2,5) nw(2) by (auto simp: exactRange_def)
  from numOk_child[OF assms(4) nw(4,5) r this] show ?thesis using nw(1) by auto
qed

lemma childFails_not_exact:
  assumes "pathOk objs node" "set ns \<subseteq> set objs" "childFails node ns"
  shows "\<not> (numOk limit node \<and> exactRange objs limit)"
proof
  assume a: "numOk limit node \<and> exactRange objs limit"
  obtain n w where nw: "childNode node n w = Inl OverflowError" "n \<in> set ns"
    "n \<notin> set (getPath node)" "weightOk w" "\<not> pyGt w (dBudget node)"
    using assms(3) unfolding childFails_def by blast
  have "distinct (getPath node @ [n])" "set (getPath node @ [n]) \<subseteq> set objs"
    using assms(1,2) nw(2,3) by (auto simp: pathOk_def)
  then have "sdSum (getPath node @ [n]) \<le> sdSum objs"
    using a by (intro sdSum_path_le) (simp_all add: exactRange_def)
  then have r: "limit + sdSum (getPath node @ [n]) \<le> 2 ^ 53"
    using a by (simp add: exactRange_def)
  have "objIdentifier n = ''SD'' \<longrightarrow> 0 \<le> objValue n"
    using assms(2) a nw(2) by (auto simp: exactRange_def)
  moreover have "numOk limit node" using a by simp
  ultimately have "\<exists>c. childNode node n w = Inr c \<and> numOk limit c"
    using nw(4,5) r by (intro numOk_child) simp_all
  then show False using nw(1) by auto
qed

text \<open>
  The loop returns the table or raises OverflowError, and it returns the table when
  the arithmetic is exact.
\<close>

lemma dlsLoop_ok:
  "findNonObstacles grid = Inr objs \<Longrightarrow> set (map fst ig) = set objs \<Longrightarrow>
   \<forall>n\<in>set q. pathOk objs n \<Longrightarrow> graphsOk objs graphs \<Longrightarrow>
     (\<exists>table. dlsLoop grid ig q ms graphs = Inr table)
     \<or> (dlsLoop grid ig q ms graphs = Inl OverflowError
          \<and> \<not> (exactRange objs limit \<and> (\<forall>n\<in>set q. numOk limit n)))"
proof (induction grid ig q ms graphs rule: dlsLoop.induct)
  case (1 grid ig q ms graphs)
  note objs = "1.prems"(1)
  show ?case
  proof (cases q)
    case Nil
    then show ?thesis by (subst dlsLoop.simps) simp
  next
    case (Cons cur rest)
    have cur: "pathOk objs cur" and rest: "\<forall>n\<in>set rest. pathOk objs n"
      using "1.prems"(3) Cons by simp_all
    have ks: "set (map fst ig) \<subseteq> set objs" using "1.prems"(2) by simp
    show ?thesis
    proof (cases "updateMScores cur ms")
      case (Inl e)
      then have e: "e = OverflowError" by (rule updateMScores_error)
      have "getTrajLen cur = Inl OverflowError"
        using Inl e by (auto simp: updateMScores_def split: sum.splits)
      then have "\<not> (exactRange objs limit \<and> numOk limit cur)"
        using getTrajLen_exact[of limit cur] pathOk_range[OF cur, of limit] by auto
      then have "\<not> (exactRange objs limit \<and> (\<forall>n\<in>set q. numOk limit n))" using Cons by auto
      moreover have "dlsLoop grid ig q ms graphs = Inl OverflowError"
        using Cons Inl e by (subst dlsLoop.simps) simp
      ultimately show ?thesis by simp
    next
      case (Inr ms')
      from expandNode_step[OF objs cur "1.prems"(4) ks, where q = rest] show ?thesis
      proof
        assume "\<exists>cs graphs'. expandNode grid cur (map fst ig) rest graphs = Inr (rest @ cs, graphs')
               \<and> graphsOk objs graphs' \<and> (\<forall>c\<in>set cs. childOf cur (map fst ig) c)"
        then obtain cs graphs' where ex: "expandNode grid cur (map fst ig) rest graphs = Inr (rest @ cs, graphs')"
          and g': "graphsOk objs graphs'" and cs: "\<forall>c\<in>set cs. childOf cur (map fst ig) c"
          by blast
        have q': "\<forall>n\<in>set (rest @ cs). pathOk objs n"
          using rest cs childOf_pathOk[OF cur ks] by auto
        have unfold: "dlsLoop grid ig q ms graphs = dlsLoop grid ig (rest @ cs) ms' graphs'"
          using Cons Inr ex by (subst dlsLoop.simps) simp
        have num: "\<forall>n\<in>set (rest @ cs). numOk limit n"
          if "exactRange objs limit" "\<forall>n\<in>set q. numOk limit n"
          using that Cons cs childOf_numOk[OF cur ks, where limit = limit] by auto
        from "1.IH"[OF Cons Inr ex refl objs "1.prems"(2) q' g'] show ?thesis
          unfolding unfold using num by blast
      next
        assume f: "expandNode grid cur (map fst ig) rest graphs = Inl OverflowError
                     \<and> childFails cur (map fst ig)"
        then have "\<not> (numOk limit cur \<and> exactRange objs limit)"
          using childFails_not_exact[OF cur ks, where limit = limit] by blast
        then have "\<not> (exactRange objs limit \<and> (\<forall>n\<in>set q. numOk limit n))" using Cons by auto
        moreover have "dlsLoop grid ig q ms graphs = Inl OverflowError"
          using Cons Inr f by (subst dlsLoop.simps) simp
        ultimately show ?thesis by simp
      qed
    qed
  qed
qed



lemma graphsOk_initial:
  assumes "fullGraph (set objs) ig"
  shows "graphsOk objs (AList.update {} (Some ig) (dictFromKeys (objectPowerset objs) None))"
  unfolding graphsOk_def
proof (intro conjI allI impI)
  fix V assume "V \<subseteq> set objs"
  then have "V \<in> set (objectPowerset objs)" by (rule subset_in_objectPowerset)
  then show "map_of (AList.update {} (Some ig) (dictFromKeys (objectPowerset objs) None)) V \<noteq> None"
    by (simp add: update_conv' map_of_dictFromKeys)
next
  fix V ag
  assume "map_of (AList.update {} (Some ig) (dictFromKeys (objectPowerset objs) None)) V = Some (Some ag)"
  then have "V = {} \<and> ag = ig"
    by (auto simp: update_conv' map_of_dictFromKeys split: if_splits)
  then show "\<exists>K. fullGraph K ag \<and> set objs - V \<subseteq> K" using assms by auto
qed

lemma initialSearch_ok:
  assumes "findNonObstacles grid = Inr objs" "findAll ''A'' grid = Inr (agent # others)"
  shows "\<exists>ig graphs. initialSearch grid limit = Inr (ig, [DLSNode None agent (PInt 0) (PInt limit) 0], graphs)
           \<and> set (map fst ig) = set objs \<and> graphsOk objs graphs
           \<and> pathOk objs (DLSNode None agent (PInt 0) (PInt limit) 0)"
proof -
  obtain ig where ig: "convertToGraph grid = Inr ig" "fullGraph (set objs) ig"
    using convertToGraph_fullGraph[OF assms(1)] by blast
  let ?graphs = "AList.update {} (Some ig) (dictFromKeys (objectPowerset objs) None)"
  have i: "initialSearch grid limit = Inr (ig, [DLSNode None agent (PInt 0) (PInt limit) 0], ?graphs)"
    using ig(1) assms by (simp add: initialSearch_Inr)
  have k: "set (map fst ig) = set objs" using ig(2) by (simp add: fullGraph_def)
  have "foundAt ''A'' grid agent" using findAll_set[OF assms(2)] by auto
  then have "agent \<in> set objs"
    using findNonObstacles_set[OF assms(1)] by (simp add: isObject_def)
  then have "pathOk objs (DLSNode None agent (PInt 0) (PInt limit) 0)"
    by (simp add: pathOk_def getPath_root)
  then show ?thesis using i k graphsOk_initial[OF ig(2)] by blast
qed




lemma numOk_root:
  "objIdentifier agent = ''A'' \<Longrightarrow> numOk limit (DLSNode None agent (PInt 0) (PInt limit) 0)"
  by (simp add: numOk_def getPath_root sdSum_def)


section \<open>Well-formed grids\<close>

text \<open>
  The grid text format of the spec: a token is \<open>A\<close>, \<open>#\<close>, \<open>.\<close>, \<open>C\<close> followed by
  a positive integer or \<open>SD\<close> followed by a positive integer, written with decimal
  digits, at most 4300 of them (the most that \<open>int\<close> converts). A grid is well-formed
  when every token is, exactly one token is the Agent, and all columns have the same
  length.
\<close>

definition posDigits :: "string \<Rightarrow> bool" where
  "posDigits ds =
     (ds \<noteq> [] \<and> list_all isDigit ds \<and> length ds \<le> 4300 \<and> 0 < digitsVal ds)"

definition wellFormedTile :: "string \<Rightarrow> bool" where
  "wellFormedTile tile =
     (tile = ''.'' \<or> tile = ''#'' \<or> tile = ''A''
      \<or> (take 1 tile = ''C'' \<and> posDigits (drop 1 tile))
      \<or> (take 2 tile = ''SD'' \<and> posDigits (drop 2 tile)))"


lemma isDigit_not_special:
  "isDigit c \<Longrightarrow> \<not> isIntSpace c \<and> c \<noteq> CHR ''-'' \<and> c \<noteq> CHR ''+'' \<and> c \<noteq> CHR ''_''
     \<and> c \<noteq> CHR ''C'' \<and> c \<noteq> CHR ''S'' \<and> c \<noteq> CHR ''A''"
  by (auto simp: isDigit_def isIntSpace_def)

lemma dropWhile_id: "s \<noteq> [] \<Longrightarrow> \<not> P (hd s) \<Longrightarrow> dropWhile P s = s"
  by (cases s) simp_all

lemma strip_digits:
  assumes "ds \<noteq> []" "list_all isDigit ds"
  shows "strip ds = ds"
proof -
  have h: "\<not> isIntSpace (hd ds)" using assms isDigit_not_special by (cases ds) auto
  have "last ds \<in> set ds" using assms(1) by simp
  then have l: "\<not> isIntSpace (last ds)"
    using assms(2) isDigit_not_special by (auto simp: list_all_iff)
  have "dropWhile isIntSpace ds = ds" using assms(1) h by (rule dropWhile_id[of ds isIntSpace])
  moreover have "dropWhile isIntSpace (rev ds) = rev ds"
    using assms(1) l by (intro dropWhile_id) (simp_all add: hd_rev)
  ultimately show ?thesis by (simp add: strip_def)
qed

lemma digitsOk_digits: "ds \<noteq> [] \<Longrightarrow> list_all isDigit ds \<Longrightarrow> digitsOk ds"
proof (induction ds rule: digitsOk.induct)
  case 1
  then show ?case by simp
next
  case (2 c)
  then show ?case by simp
next
  case (3 c d cs)
  have "d \<noteq> CHR ''_''" using "3.prems"(2) isDigit_not_special[of d] by auto
  then show ?case using 3 by simp
qed

lemma pyInt_digits:
  assumes "ds \<noteq> []" "list_all isDigit ds" "length ds \<le> 4300"
  shows "pyInt ds = Some (digitsVal ds)"
proof -
  have "hd ds \<noteq> CHR ''-'' \<and> hd ds \<noteq> CHR ''+''"
    using assms isDigit_not_special[of "hd ds"] by (cases ds) auto
  moreover have "filter isDigit ds = ds" using assms(2) by (simp add: list_all_iff)
  ultimately show ?thesis
    using strip_digits[OF assms(1,2)] digitsOk_digits[OF assms(1,2)] assms(1,3)
    by (simp add: pyInt_def Let_def)
qed

lemma reSub_digits:
  assumes "t \<noteq> []" "\<not> isDigit (hd t)"
  shows "list_all isDigit ds \<Longrightarrow> reSub t ds = ds"
proof (induction ds)
  case Nil
  then show ?case by (subst reSub.simps) simp
next
  case (Cons c cs)
  have "take (length t) (c # cs) \<noteq> t"
  proof
    assume e: "take (length t) (c # cs) = t"
    have "hd (take (length t) (c # cs)) = c" using assms(1) by (cases t) simp_all
    then have "hd t = c" using e by simp
    then show False using assms(2) Cons.prems by simp
  qed
  then have "reSub t (c # cs) = c # reSub t cs"
    using assms(1) by (subst reSub.simps) simp
  then show ?case using Cons by simp
qed

lemma reSub_prefix: "t \<noteq> [] \<Longrightarrow> take (length t) s = t \<Longrightarrow> reSub t s = reSub t (drop (length t) s)"
  by (subst reSub.simps) auto

lemma tileOk_wellFormedTile:
  assumes "wellFormedTile tile"
  shows "tileOk ''A'' tile \<and> tileOk ''C'' tile \<and> tileOk ''SD'' tile"
proof -
  consider "tile = ''.'' \<or> tile = ''#''" | "tile = ''A''"
    | "take 1 tile = ''C''" "posDigits (drop 1 tile)"
    | "take 2 tile = ''SD''" "posDigits (drop 2 tile)"
    using assms by (auto simp: wellFormedTile_def)
  then show ?thesis
  proof cases
    case 1
    then show ?thesis by (auto simp: tileOk_def)
  next
    case 2
    have "reSub ''A'' ''A'' = []"
      using reSub_prefix[of "''A''" "''A''"] by (simp add: reSub.simps[of _ "[]"])
    then show ?thesis using 2 by (simp add: tileOk_def)
  next
    case 3
    let ?ds = "drop 1 tile"
    have ds: "?ds \<noteq> []" "list_all isDigit ?ds" "length ?ds \<le> 4300"
      using 3(2) by (simp_all add: posDigits_def)
    have "reSub ''C'' tile = reSub ''C'' ?ds"
      using reSub_prefix[of "''C''" tile] 3(1) by simp
    also have "\<dots> = ?ds" using ds(2) by (intro reSub_digits) (simp_all add: isDigit_def)
    finally have "pyInt (reSub ''C'' tile) \<noteq> None" using pyInt_digits[OF ds] by simp
    moreover have "take 1 tile \<noteq> ''A''" using 3(1) by simp
    moreover have "take 2 tile \<noteq> ''SD''"
    proof
      assume "take 2 tile = ''SD''"
      then have "take 1 (take 2 tile) = ''S''" by simp
      then show False using 3(1) by (simp add: min_def)
    qed
    ultimately show ?thesis by (simp add: tileOk_def numeral_2_eq_2)
  next
    case 4
    let ?ds = "drop 2 tile"
    have ds: "?ds \<noteq> []" "list_all isDigit ?ds" "length ?ds \<le> 4300"
      using 4(2) by (simp_all add: posDigits_def)
    have "reSub ''SD'' tile = reSub ''SD'' ?ds"
      using reSub_prefix[of "''SD''" tile] 4(1) by (simp add: numeral_2_eq_2)
    also have "\<dots> = ?ds" using ds(2) by (intro reSub_digits) (simp_all add: isDigit_def)
    finally have "pyInt (reSub ''SD'' tile) \<noteq> None" using pyInt_digits[OF ds] by simp
    moreover have "take 1 (take 2 tile) = ''S''" using 4(1) by simp
    then have "take 1 tile = ''S''" by (simp add: min_def)
    then have "take 1 tile \<noteq> ''A''" "take 1 tile \<noteq> ''C''" by simp_all
    ultimately show ?thesis by (simp add: tileOk_def numeral_2_eq_2)
  qed
qed

lemma wellFormed_findNonObstacles:
  assumes "list_all (list_all wellFormedTile) grid"
  shows "\<exists>objs. findNonObstacles grid = Inr objs"
proof -
  have "list_all (list_all (tileOk t)) grid" if "t \<in> {''A'', ''C'', ''SD''}" for t
    using assms that tileOk_wellFormedTile by (auto simp: list_all_iff)
  then have "\<exists>a. findAll ''A'' grid = Inr a" "\<exists>c. findAll ''C'' grid = Inr c"
    "\<exists>b. findAll ''SD'' grid = Inr b"
    using findAll_ok by simp_all
  then show ?thesis by (auto simp: findNonObstacles_Inr)
qed

lemma findTile_agent: "findTile ''A'' x y ''A'' = Inr [Object ''A'' x y 0]"
proof -
  have "reSub ''A'' ''A'' = []"
    using reSub_prefix[of "''A''" "''A''"] by (simp add: reSub.simps[of _ "[]"])
  then show ?thesis by (simp add: findTile_def)
qed

lemma agent_found:
  assumes "''A'' \<in> set (concat grid)" "findAll ''A'' grid = Inr agents"
  shows "agents \<noteq> []"
proof -
  obtain col where col: "col \<in> set grid" "''A'' \<in> set col" using assms(1) by auto
  then obtain i j where ij: "i < length grid" "grid ! i = col" "j < length col" "col ! j = ''A''"
    by (metis in_set_conv_nth)
  have "foundAt ''A'' grid (Object ''A'' (int i) (int j) 0)"
    unfolding foundAt_def using ij findTile_agent
    by (intro exI[of _ i] conjI exI[of _ j]) simp_all
  then show ?thesis using findAll_set[OF assms(2)] by auto
qed

lemma findAll_identifier:
  "findAll t grid = Inr objs \<Longrightarrow> obj \<in> set objs \<Longrightarrow> objIdentifier obj = t"
  using findAll_set[of t grid objs] foundAt_place[of t grid obj] by simp

lemma filter_identifier:
  "\<forall>obj\<in>set xs. objIdentifier obj = t \<Longrightarrow>
     filter (\<lambda>obj. objIdentifier obj = t') xs = (if t = t' then xs else [])"
  by (induction xs) auto

lemma sdSum_objects:
  assumes "findAll ''A'' grid = Inr agents" "findAll ''C'' grid = Inr coins"
    "findAll ''SD'' grid = Inr devices"
  shows "sdSum (agents @ coins @ devices) = sum_list (map objValue devices)"
proof -
  have a: "filter (\<lambda>obj. objIdentifier obj = ''SD'') agents = []"
    using filter_identifier[of agents "''A''" "''SD''"] findAll_identifier[OF assms(1)] by simp
  have c: "filter (\<lambda>obj. objIdentifier obj = ''SD'') coins = []"
    using filter_identifier[of coins "''C''" "''SD''"] findAll_identifier[OF assms(2)] by simp
  have d: "filter (\<lambda>obj. objIdentifier obj = ''SD'') devices = devices"
    using filter_identifier[of devices "''SD''" "''SD''"] findAll_identifier[OF assms(3)] by simp
  show ?thesis unfolding sdSum_def filter_append a c d by simp
qed

lemma wellFormed_device_value:
  assumes "list_all (list_all wellFormedTile) grid" "foundAt ''SD'' grid obj"
  shows "0 < objValue obj"
proof -
  let ?tile = "grid ! nat (objX obj) ! nat (objY obj)"
  have p: "nat (objX obj) < length grid" "nat (objY obj) < length (grid ! nat (objX obj))"
    "findTile ''SD'' (objX obj) (objY obj) ?tile = Inr [obj]"
    "take (length ''SD'') ?tile = ''SD''"
    using foundAt_place[OF assms(2)] by simp_all
  have wf: "wellFormedTile ?tile" using assms(1) p(1,2) by (simp add: list_all_length)
  have t2: "take 2 ?tile = ''SD''" using p(4) by (simp add: numeral_2_eq_2)
  then have "take 1 (take 2 ?tile) = ''S''" by simp
  then have t1: "take 1 ?tile = ''S''" by (simp add: min_def)
  have "?tile \<noteq> ''.''" "?tile \<noteq> ''#''" "?tile \<noteq> ''A''" "take 1 ?tile \<noteq> ''C''"
    using t1 by auto
  then have pd: "posDigits (drop 2 ?tile)" using wf unfolding wellFormedTile_def by blast
  let ?ds = "drop 2 ?tile"
  have ds: "?ds \<noteq> []" "list_all isDigit ?ds" "length ?ds \<le> 4300" "0 < digitsVal ?ds"
    using pd by (simp_all add: posDigits_def)
  have "reSub ''SD'' ?tile = reSub ''SD'' ?ds"
    using reSub_prefix[of "''SD''" ?tile] t2 by (simp add: numeral_2_eq_2)
  also have "\<dots> = ?ds" using ds(2) by (intro reSub_digits) (simp_all add: isDigit_def)
  finally have r: "reSub ''SD'' ?tile = ?ds" .
  have "findTile ''SD'' (objX obj) (objY obj) ?tile
          = Inr [Object ''SD'' (objX obj) (objY obj) (digitsVal ?ds)]"
    unfolding findTile_def Let_def r using p(4) ds(1) pyInt_digits[OF ds(1,2,3)] by simp
  then have "obj = Object ''SD'' (objX obj) (objY obj) (digitsVal ?ds)" using p(3) by simp
  then have "objValue obj = digitsVal ?ds" by (metis Object.sel(4))
  then show ?thesis using ds(4) by simp
qed

lemma getMScores_ok:
  assumes "list_all (list_all wellFormedTile) grid" "''A'' \<in> set (concat grid)"
  shows "\<exists>ig q graphs devices.
           initialSearch grid limit = Inr (ig, q, graphs) \<and> findAll ''SD'' grid = Inr devices
           \<and> (\<forall>n\<in>set q. distinct (getPath n))
           \<and> ((\<exists>table. getMScores grid limit = Inr table)
                \<or> getMScores grid limit = Inl OverflowError)
           \<and> (limit + sum_list (map objValue devices) \<le> 2 ^ 53
                \<longrightarrow> (\<exists>table. getMScores grid limit = Inr table))"
proof -
  obtain objs where objs: "findNonObstacles grid = Inr objs"
    using wellFormed_findNonObstacles[OF assms(1)] by blast
  obtain agents coins devices where f: "findAll ''A'' grid = Inr agents"
    "findAll ''C'' grid = Inr coins" "findAll ''SD'' grid = Inr devices"
    and o: "objs = agents @ coins @ devices"
    using objs by (auto simp: findNonObstacles_Inr)
  obtain agent others where ag: "agents = agent # others"
    using agent_found[OF assms(2) f(1)] by (cases agents) auto
  let ?root = "DLSNode None agent (PInt 0) (PInt limit) 0"
  obtain ig graphs where i: "initialSearch grid limit = Inr (ig, [?root], graphs)"
    "set (map fst ig) = set objs" "graphsOk objs graphs" "pathOk objs ?root"
    using initialSearch_ok[OF objs f(1)[unfolded ag]] by blast
  have g: "getMScores grid limit = dlsLoop grid ig [?root] [] graphs"
    using i(1) by (simp add: getMScores_def)
  have l: "(\<exists>table. dlsLoop grid ig [?root] [] graphs = Inr table)
     \<or> (dlsLoop grid ig [?root] [] graphs = Inl OverflowError
          \<and> \<not> (exactRange objs limit \<and> (\<forall>n\<in>set [?root]. numOk limit n)))"
    using dlsLoop_ok[OF objs i(2) _ i(3), of "[?root]" "[]" limit] i(4) by simp
  have root: "numOk limit ?root"
    using agent_is_object(2)[OF f(1)[unfolded ag] objs] by (rule numOk_root)
  have sd: "sdSum objs = sum_list (map objValue devices)"
    unfolding o by (rule sdSum_objects[OF f])
  have pos: "\<forall>obj\<in>set objs. objIdentifier obj = ''SD'' \<longrightarrow> 0 \<le> objValue obj"
  proof (intro ballI impI)
    fix obj assume m: "obj \<in> set objs" and s: "objIdentifier obj = ''SD''"
    have "isObject grid obj" using findNonObstacles_set[OF objs] m by simp
    then obtain t where t: "foundAt t grid obj" by (auto simp: isObject_def)
    have "objIdentifier obj = t" using foundAt_place[OF t] by simp
    then have "t = ''SD''" using s by simp
    then have "foundAt ''SD'' grid obj" using t by simp
    then show "0 \<le> objValue obj" using wellFormed_device_value[OF assms(1)] by fastforce
  qed
  have "\<exists>table. getMScores grid limit = Inr table"
    if "limit + sum_list (map objValue devices) \<le> 2 ^ 53"
  proof -
    have "exactRange objs limit" using that pos sd by (simp add: exactRange_def)
    then show ?thesis using l root g by auto
  qed
  moreover have "(\<exists>table. getMScores grid limit = Inr table)
                \<or> getMScores grid limit = Inl OverflowError"
    using l g by auto
  moreover have "\<forall>n\<in>set [?root]. distinct (getPath n)" by (simp add: getPath_root)
  ultimately show ?thesis using i(1) f(3) by blast
qed


lemma parseEnv_error: "parseEnv fileLines = Inl e \<Longrightarrow> e = ValueError"
  by (auto simp: parseEnv_def transposeRows_def split: option.splits sum.splits list.splits if_splits)

lemma parseEnv_success:
  "(\<exists>r. parseEnv (first # body) = Inr r) \<longleftrightarrow>
     (pyInt first \<noteq> None
      \<and> list_all (\<lambda>line. length (split line) = length (split (hd body))) body)"
proof (cases body)
  case Nil
  then show ?thesis by (auto simp: parseEnv_def transposeRows_def split: option.splits)
next
  case (Cons l ls)
  then show ?thesis
    by (auto simp: parseEnv_def transposeRows_def list_all_iff split: option.splits)
qed

lemma no_agent_findAll:
  assumes "list_all (list_all wellFormedTile) grid" "''A'' \<notin> set (concat grid)"
    "findAll ''A'' grid = Inr agents"
  shows "agents = []"
proof (rule ccontr)
  assume "agents \<noteq> []"
  then obtain a where "a \<in> set agents" by (cases agents) auto
  then have f: "foundAt ''A'' grid a" using findAll_set[OF assms(3)] by simp
  let ?tile = "grid ! nat (objX a) ! nat (objY a)"
  have p: "nat (objX a) < length grid" "nat (objY a) < length (grid ! nat (objX a))"
    "take (length ''A'') ?tile = ''A''"
    using foundAt_place[OF f] by simp_all
  have mem: "?tile \<in> set (concat grid)" using p(1,2) by (auto intro!: bexI[of _ "grid ! nat (objX a)"])
  have wf: "wellFormedTile ?tile" using assms(1) p(1,2) by (simp add: list_all_length)
  have t1: "take 1 ?tile = ''A''" using p(3) by simp
  have "?tile = ''A''"
  proof -
    have "take 1 ?tile \<noteq> ''C''" using t1 by simp
    moreover have "take 2 ?tile \<noteq> ''SD''"
    proof
      assume "take 2 ?tile = ''SD''"
      then have "take 1 (take 2 ?tile) = ''S''" by simp
      then show False using t1 by (simp add: min_def)
    qed
    moreover have "?tile \<noteq> ''.''" "?tile \<noteq> ''#''" using t1 by auto
    ultimately show ?thesis using wf unfolding wellFormedTile_def by blast
  qed
  then show False using mem assms(2) by simp
qed

lemma no_agent_IndexError:
  assumes "list_all (list_all wellFormedTile) grid" "''A'' \<notin> set (concat grid)"
  shows "getMScores grid limit = Inl IndexError \<and> (\<exists>ig. convertToGraph grid = Inr ig)"
proof -
  obtain objs where objs: "findNonObstacles grid = Inr objs"
    using wellFormed_findNonObstacles[OF assms(1)] by blast
  obtain agents where a: "findAll ''A'' grid = Inr agents"
    using objs by (auto simp: findNonObstacles_Inr)
  have e: "agents = []" using no_agent_findAll[OF assms a] .
  obtain ig where ig: "convertToGraph grid = Inr ig"
    using convertToGraph_fullGraph[OF objs] by blast
  have "initialSearch grid limit = Inl IndexError"
    using ig objs a e by (simp add: initialSearch_def)
  then show ?thesis using ig by (simp add: getMScores_def)
qed

text \<open>The dictionary of numbers: what an assignment changes.\<close>

lemma pyEq_trans_left: "pyEq k0 k \<Longrightarrow> pyEq k0 k' \<Longrightarrow> pyEq k' k"
  by (auto simp: pyEq_def)

lemma pyEq_sym: "pyEq k k' \<Longrightarrow> pyEq k' k"
  by (auto simp: pyEq_def)

lemma dictSet_absent: "dictGet d k = None \<Longrightarrow> dictSet k v d = d @ [(k, v)]"
  by (induction d) (auto split: if_splits)

lemma dictGet_append_new:
  "dictGet d k = None \<Longrightarrow> valOf k \<noteq> NaN \<Longrightarrow> dictGet (d @ [(k, v)]) k = Some v"
  by (induction d) (auto simp: pyEq_def split: if_splits)

lemma dictGet_dictSet_same: "dictGet d k = Some v0 \<Longrightarrow> dictGet (dictSet k v d) k = Some v"
  by (induction d) (auto split: if_splits)

lemma keys_dictSet_present: "dictGet d k = Some v0 \<Longrightarrow> map fst (dictSet k v d) = map fst d"
  by (induction d) (auto split: if_splits)

lemma dictGet_dictSet_other: "\<not> pyEq k' k \<Longrightarrow> dictGet (dictSet k v d) k' = dictGet d k'"
proof (induction d)
  case Nil
  then show ?case using pyEq_sym[of k k'] by auto
next
  case (Cons e d)
  obtain k0 v0 where e: "e = (k0, v0)" by (cases e)
  show ?case
  proof (cases "pyEq k0 k")
    case True
    then have "\<not> pyEq k0 k'" using Cons.prems pyEq_trans_left[of k0 k k'] by blast
    then show ?thesis using True e by simp
  next
    case False
    then show ?thesis using Cons e by simp
  qed
qed

section \<open>Properties\<close>

text \<open>
  C10: there is a binary grid and a tile on its left edge for which getFreeNeighbours
  returns a neighbour with the coordinate -1: in the 2-by-1 grid with no wall, the
  neighbours of (0, 0) include (-1, 0), read from the opposite edge, and (0, -1).
\<close>

theorem getFreeNeighbours_negative_coordinate:
  "\<exists>grid tile n. fst tile = 0 \<and> isFree grid tile \<and> n \<in> set (getFreeNeighbours tile grid)
     \<and> fst n = -1 \<and> getFreeNeighbours (0, 0) [[0], [0]] = [(0, -1), (1, 0), (-1, 0)]"
proof -
  have e: "getFreeNeighbours (0, 0) [[0], [0]] = [(0, -1), (1, 0), (-1, 0)]"
    by (simp add: getFreeNeighbours_def isFree_def pyGet_def)
  have f: "isFree [[0], [0]] (0, 0)"
    by (simp add: isFree_def pyGet_def)
  have "fst ((0, 0) :: tile) = 0 \<and> isFree [[0], [0]] (0, 0)
      \<and> (-1, 0) \<in> set (getFreeNeighbours (0, 0) [[0], [0]]) \<and> fst ((-1, 0) :: tile) = -1
      \<and> getFreeNeighbours (0, 0) [[0], [0]] = [(0, -1), (1, 0), (-1, 0)]"
    using e f by simp
  then show ?thesis by blast
qed

text \<open>
  C1, evaluated where the code departs from it. In the 3 by 3 grid with walls at (0, 1)
  and (1, 1), the shortest route of free tiles from (0, 0) to (0, 2) has 6 steps: the
  route through the right column is one, and no route of at most 5 steps ends in (0, 2).
  aStarSearch returns the distance 4 with a path through (-1, 0), (-1, 1) and (-1, 2),
  which are not tiles of the grid: getFreeNeighbours reads them from the right column.
\<close>

theorem aStarSearch_shortcut_outside_grid:
  "aStarSearch (0, 0) (0, 2) [[0, 1, 0], [0, 1, 0], [0, 0, 0]] getManhattanDist
     = (PInt 4, [(0, 0), (-1, 0), (-1, 1), (-1, 2), (0, 2)])
   \<and> specRoute [[0, 1, 0], [0, 1, 0], [0, 0, 0]]
        [(0, 0), (1, 0), (2, 0), (2, 1), (2, 2), (1, 2), (0, 2)]
   \<and> (0, 2) \<notin> set (specReachWithin [[0, 1, 0], [0, 1, 0], [0, 0, 0]] (0, 0) 5)"
  by code_simp

text \<open>
  C8, evaluated where the code departs from it. In the 3 by 3 grid whose middle column
  is all walls and which has a wall at (0, 1), the start (0, 0) has no free neighbour
  inside the grid, so no route to (0, 2) exists; aStarSearch does not return the
  sentinel with the empty path but the distance 4 with a path through column -1, and
  getMScores on the corresponding grid collects the coin that is walled off.
\<close>

theorem aStarSearch_finds_path_for_enclosed_start:
  "aStarSearch (0, 0) (0, 2) [[0, 1, 0], [1, 1, 1], [0, 0, 0]] getManhattanDist
     = (PInt 4, [(0, 0), (-1, 0), (-1, 1), (-1, 2), (0, 2)])
   \<and> specNeighbours [[0, 1, 0], [1, 1, 1], [0, 0, 0]] (0, 0) = []
   \<and> getMScores [[''A'', ''#'', ''C1''], [''#'', ''#'', ''#''], [''.'', ''.'', ''.'']] 4
       = Inr [(PInt 4, 1, [Object ''A'' 0 0 0, Object ''C'' 0 2 1])]"
  by code_simp

text \<open>
  C7: for the node taken from the queue, with trajectory length L: when the table has
  no entry at L, the node's score and path are entered under L, at the end of the table;
  when it has the entry (s, p), the keys stay as they are and the entry becomes the
  node's score and path if the node's score is greater than s and stays (s, p) otherwise,
  so a later node of equal score does not displace it; no entry at another number
  changes; an exception raised while L is computed leaves the table as it is and is
  raised; and this update is the one the loop applies to the node at the front of the
  queue, before it expands the node.
\<close>

theorem updateMScores_rule:
  "(\<forall>L. getTrajLen node = Inr L \<longrightarrow>
      (\<exists>mScores'. updateMScores node mScores = Inr mScores'
         \<and> (dictGet mScores L = None \<longrightarrow>
               mScores' = mScores @ [(L, dScore node, getPath node)]
               \<and> (valOf L \<noteq> NaN \<longrightarrow> dictGet mScores' L = Some (dScore node, getPath node)))
         \<and> (\<forall>s p. dictGet mScores L = Some (s, p) \<longrightarrow>
               map fst mScores' = map fst mScores
               \<and> dictGet mScores' L
                   = (if dScore node > s then Some (dScore node, getPath node) else Some (s, p)))
         \<and> (\<forall>L'. \<not> pyEq L' L \<longrightarrow> dictGet mScores' L' = dictGet mScores L')))
   \<and> (\<forall>e. getTrajLen node = Inl e \<longrightarrow> updateMScores node mScores = Inl e)
   \<and> dlsLoop grid initialGraph (node # rest) mScores graphs
       = (case updateMScores node mScores of
            Inl e \<Rightarrow> Inl e
          | Inr mScores' \<Rightarrow>
              (case expandNode grid node (map fst initialGraph) rest graphs of
                 Inl e \<Rightarrow> Inl e
               | Inr (q', graphs') \<Rightarrow> dlsLoop grid initialGraph q' mScores' graphs'))"
proof -
  have a: "\<forall>L. getTrajLen node = Inr L \<longrightarrow>
      (\<exists>mScores'. updateMScores node mScores = Inr mScores'
         \<and> (dictGet mScores L = None \<longrightarrow>
               mScores' = mScores @ [(L, dScore node, getPath node)]
               \<and> (valOf L \<noteq> NaN \<longrightarrow> dictGet mScores' L = Some (dScore node, getPath node)))
         \<and> (\<forall>s p. dictGet mScores L = Some (s, p) \<longrightarrow>
               map fst mScores' = map fst mScores
               \<and> dictGet mScores' L
                   = (if dScore node > s then Some (dScore node, getPath node) else Some (s, p)))
         \<and> (\<forall>L'. \<not> pyEq L' L \<longrightarrow> dictGet mScores' L' = dictGet mScores L'))"
  proof (intro allI impI)
    fix L assume L: "getTrajLen node = Inr L"
    let ?v = "(dScore node, getPath node)"
    let ?ms = "case dictGet mScores L of
                 None \<Rightarrow> dictSet L ?v mScores
               | Some (maxScore, maxPath) \<Rightarrow>
                   if dScore node > maxScore then dictSet L ?v mScores else mScores"
    have u: "updateMScores node mScores = Inr ?ms" using L by (simp add: updateMScores_def)
    have n: "dictGet mScores L = None \<longrightarrow>
               ?ms = mScores @ [(L, ?v)] \<and> (valOf L \<noteq> NaN \<longrightarrow> dictGet ?ms L = Some ?v)"
      by (auto simp: dictSet_absent dictGet_append_new)
    have s: "\<forall>s p. dictGet mScores L = Some (s, p) \<longrightarrow>
               map fst ?ms = map fst mScores
               \<and> dictGet ?ms L = (if dScore node > s then Some ?v else Some (s, p))"
      by (auto simp: keys_dictSet_present dictGet_dictSet_same)
    have o: "\<forall>L'. \<not> pyEq L' L \<longrightarrow> dictGet ?ms L' = dictGet mScores L'"
      by (auto simp: dictGet_dictSet_other split: option.splits)
    show "\<exists>mScores'. updateMScores node mScores = Inr mScores'
         \<and> (dictGet mScores L = None \<longrightarrow>
               mScores' = mScores @ [(L, dScore node, getPath node)]
               \<and> (valOf L \<noteq> NaN \<longrightarrow> dictGet mScores' L = Some (dScore node, getPath node)))
         \<and> (\<forall>s p. dictGet mScores L = Some (s, p) \<longrightarrow>
               map fst mScores' = map fst mScores
               \<and> dictGet mScores' L
                   = (if dScore node > s then Some (dScore node, getPath node) else Some (s, p)))
         \<and> (\<forall>L'. \<not> pyEq L' L \<longrightarrow> dictGet mScores' L' = dictGet mScores L')"
      by (rule exI[of _ ?ms]) (intro conjI u n s o)
  qed
  have b: "\<forall>e. getTrajLen node = Inl e \<longrightarrow> updateMScores node mScores = Inl e"
    by (simp add: updateMScores_def)
  have c: "dlsLoop grid initialGraph (node # rest) mScores graphs
       = (case updateMScores node mScores of
            Inl e \<Rightarrow> Inl e
          | Inr mScores' \<Rightarrow>
              (case expandNode grid node (map fst initialGraph) rest graphs of
                 Inl e \<Rightarrow> Inl e
               | Inr (q', graphs') \<Rightarrow> dlsLoop grid initialGraph q' mScores' graphs'))"
    by (subst dlsLoop.simps) simp
  from a b c show ?thesis by blast
qed

theorem updateMScores_rule_witness:
  "updateMScores (DLSNode None (Object ''C'' 1 0 5) (PInt 1) (PInt 1) 5)
       [(PInt 2, 5, [Object ''A'' 0 0 0])]
     = Inr [(PInt 2, 5, [Object ''A'' 0 0 0])]
   \<and> updateMScores (DLSNode None (Object ''C'' 1 0 5) (PFloat (Fin 1)) (PFloat (Fin 1)) 6)
       [(PInt 2, 5, [Object ''A'' 0 0 0])]
     = Inr [(PInt 2, 6, [Object ''C'' 1 0 5])]
   \<and> updateMScores (DLSNode None (Object ''C'' 1 0 5) (PInt 1) (PInt 2) 5)
       [(PInt 2, 5, [Object ''A'' 0 0 0])]
     = Inr [(PInt 2, 5, [Object ''A'' 0 0 0]), (PInt 3, 5, [Object ''C'' 1 0 5])]"
proof -
  let ?ms = "[(PInt 2, 5 :: int, [Object ''A'' 0 0 0])]"
  let ?n1 = "DLSNode None (Object ''C'' 1 0 5) (PInt 1) (PInt 1) 5"
  let ?n2 = "DLSNode None (Object ''C'' 1 0 5) (PFloat (Fin 1)) (PFloat (Fin 1)) 6"
  let ?n3 = "DLSNode None (Object ''C'' 1 0 5) (PInt 1) (PInt 2) 5"
  have t1: "getTrajLen ?n1 = Inr (PInt 2)" by (simp add: getTrajLen_def)
  have t2: "getTrajLen ?n2 = Inr (PFloat (Fin 2))"
    by (simp add: getTrajLen_def floatOp_def toFloat_def roundDouble_def)
  have t3: "getTrajLen ?n3 = Inr (PInt 3)" by (simp add: getTrajLen_def)
  obtain m1 where m1: "updateMScores ?n1 ?ms = Inr m1" "map fst m1 = map fst ?ms"
    "dictGet m1 (PInt 2) = Some (5, [Object ''A'' 0 0 0])"
    using updateMScores_rule[of ?n1 ?ms, THEN conjunct1] t1 by (auto simp: pyEq_def)
  obtain m2 where m2: "updateMScores ?n2 ?ms = Inr m2" "map fst m2 = map fst ?ms"
    "dictGet m2 (PFloat (Fin 2)) = Some (6, getPath ?n2)"
    using updateMScores_rule[of ?n2 ?ms, THEN conjunct1] t2 by (auto simp: pyEq_def)
  obtain m3 where m3: "updateMScores ?n3 ?ms = Inr m3"
    "m3 = ?ms @ [(PInt 3, 5, getPath ?n3)]"
    using updateMScores_rule[of ?n3 ?ms, THEN conjunct1] t3 by (auto simp: pyEq_def)
  have "m1 = [(PInt 2, 5, [Object ''A'' 0 0 0])]"
    using m1(2,3) by (cases m1; cases "tl m1") (auto simp: pyEq_def)
  moreover have "m2 = [(PInt 2, 6, [Object ''C'' 1 0 5])]"
    using m2(2,3) by (cases m2; cases "tl m2") (auto simp: pyEq_def getPath_def)
  moreover have "m3 = [(PInt 2, 5, [Object ''A'' 0 0 0]), (PInt 3, 5, [Object ''C'' 1 0 5])]"
    using m3(2) by (simp add: getPath_def)
  ultimately show ?thesis using m1(1) m2(1) m3(1) by simp
qed

text \<open>
  C4, as amended: for the grid whose single row is A . C5 and the default episode
  length 2, getMScores returns the table with the single entry 2: (5, [Agent, Coin5]).
\<close>

theorem scenario_A_table:
  "parseEnv [''2\<newline>'', ''A . C5\<newline>''] = Inr (2, [[''A''], [''.''], [''C5'']])
   \<and> getMScores [[''A''], [''.''], [''C5'']] 2
       = Inr [(PInt 2, 5, [Object ''A'' 0 0 0, Object ''C'' 2 0 5])]"
  by code_simp

text \<open>
  C4 as stated fails: the table has no entry at 0. The root node has cost 0 and budget
  2, hence trajectory length 2, and is recorded under 2 before the coin's node replaces it.
\<close>

theorem scenario_A_no_entry_at_0:
  "\<not> (\<exists>t. getMScores [[''A''], [''.''], [''C5'']] 2 = Inr t
          \<and> dictGet t (PInt 2) = Some (5, [Object ''A'' 0 0 0, Object ''C'' 2 0 5])
          \<and> dictGet t (PInt 0) = Some (0, [Object ''A'' 0 0 0]))"
proof -
  have "getMScores [[''A''], [''.''], [''C5'']] 2
       = Inr [(PInt 2, 5, [Object ''A'' 0 0 0, Object ''C'' 2 0 5])]"
    by code_simp
  then show ?thesis by (auto simp: pyEq_def)
qed




text \<open>
  C6: when every coin of the grid has a positive value, every entry of the table
  returned by getMScores has a score that is at least 0 and at most the sum of the values
  of all coins of the grid.
\<close>

theorem scores_bounded_by_coin_total:
  assumes "getMScores grid defaultLimit = Inr table"
    and "findAll ''C'' grid = Inr coins"
    and "\<forall>c\<in>set coins. 0 < objValue c"
    and "(L, score, path) \<in> set table"
  shows "0 \<le> score \<and> score \<le> sum_list (map objValue coins)"
proof -
  obtain objs where objs: "findNonObstacles grid = Inr objs"
    using getMScores_Inr[OF assms(1)] by blast
  have "entryOk objs (L, score, path)"
    using getMScores_entries[OF assms(1) objs] assms(4) by blast
  then have d: "distinct path" and sub: "set path \<subseteq> set objs" and sc: "score = coinSum path"
    by (simp_all add: entryOk_def)
  let ?ps = "filter (\<lambda>obj. objIdentifier obj = ''C'') path"
  have "set ?ps \<subseteq> set coins"
  proof
    fix obj assume "obj \<in> set ?ps"
    then have o: "obj \<in> set objs" and c: "objIdentifier obj = ''C''" using sub by auto
    then have "isObject grid obj" using findNonObstacles_set[OF objs] by simp
    then have "foundAt ''C'' grid obj"
      using c foundAt_place[of _ grid obj] by (auto simp: isObject_def)
    then show "obj \<in> set coins" using findAll_set[OF assms(2)] by simp
  qed
  moreover have "distinct ?ps" using d by simp
  moreover have nn: "\<forall>c\<in>set coins. 0 \<le> objValue c" using assms(3) by auto
  ultimately have "sum_list (map objValue ?ps) \<le> sum_list (map objValue coins)"
    by (intro sum_list_sublist_le) simp_all
  moreover have "0 \<le> sum_list (map objValue ?ps)"
    using nn \<open>set ?ps \<subseteq> set coins\<close> by (intro sum_list_nonneg) auto
  ultimately show ?thesis using sc by (simp add: coinSum_def)
qed

theorem scores_bounded_by_coin_total_witness:
  "getMScores [[''A'', ''.'', ''SD3''], [''C2'', ''#'', ''C7'']] 3
     = Inr [(PInt 3, 2, [Object ''A'' 0 0 0, Object ''C'' 1 0 2]),
            (PInt 6, 7, [Object ''A'' 0 0 0, Object ''SD'' 0 2 3, Object ''C'' 1 2 7])]
   \<and> findAll ''C'' [[''A'', ''.'', ''SD3''], [''C2'', ''#'', ''C7'']]
     = Inr [Object ''C'' 1 0 2, Object ''C'' 1 2 7]
   \<and> (0 :: int) \<le> 7 \<and> (7 :: int) \<le> sum_list (map objValue [Object ''C'' 1 0 2, Object ''C'' 1 2 7])"
proof -
  have a: "getMScores [[''A'', ''.'', ''SD3''], [''C2'', ''#'', ''C7'']] 3
     = Inr [(PInt 3, 2, [Object ''A'' 0 0 0, Object ''C'' 1 0 2]),
            (PInt 6, 7, [Object ''A'' 0 0 0, Object ''SD'' 0 2 3, Object ''C'' 1 2 7])]"
    by code_simp
  have b: "findAll ''C'' [[''A'', ''.'', ''SD3''], [''C2'', ''#'', ''C7'']]
     = Inr [Object ''C'' 1 0 2, Object ''C'' 1 2 7]"
    by code_simp
  have c: "\<forall>c\<in>set [Object ''C'' 1 0 2, Object ''C'' 1 2 7]. 0 < objValue c" by simp
  have d: "(PInt 6, 7, [Object ''A'' 0 0 0, Object ''SD'' 0 2 3, Object ''C'' 1 2 7])
     \<in> set [(PInt 3, 2, [Object ''A'' 0 0 0, Object ''C'' 1 0 2]),
            (PInt 6, 7 :: int, [Object ''A'' 0 0 0, Object ''SD'' 0 2 3, Object ''C'' 1 2 7])]"
    by simp
  from scores_bounded_by_coin_total[OF a b c d] a b show ?thesis by simp
qed

text \<open>
  C2, as amended: for every grid and every pair u, v of its interactable objects, the
  occupancy grid of getDist has the shape of the grid, is free (0) at the tiles of u and
  v, at every empty tile and at every tile A, also when the Agent is neither u nor v,
  and is blocked (1) at every other tile: the walls and every coin and time-extension
  device other than u and v.
\<close>

theorem occupancy_blocks_other_objects:
  assumes "findNonObstacles grid = Inr objs" "u \<in> set objs" "v \<in> set objs"
  shows "\<exists>b. occupancy (loc u) (loc v) grid = Inr b \<and> length b = length grid
     \<and> (\<forall>x<length grid. length (b ! x) = length (grid ! x)
          \<and> (\<forall>y<length (grid ! x).
                b ! x ! y = (if (int x, int y) = loc u \<or> (int x, int y) = loc v
                               \<or> grid ! x ! y = ''.'' \<or> grid ! x ! y = ''A'' then 0 else 1)))
     \<and> (\<forall>w\<in>set objs. w \<noteq> u \<and> w \<noteq> v \<and> objIdentifier w \<noteq> ''A''
            \<longrightarrow> b ! nat (objX w) ! nat (objY w) = 1)"
proof -
  have ou: "isObject grid u" and ov: "isObject grid v"
    using findNonObstacles_set[OF assms(1)] assms(2,3) by simp_all
  let ?i1 = "nat (objX u)" and ?j1 = "nat (objY u)" and ?i2 = "nat (objX v)" and ?j2 = "nat (objY v)"
  have pu: "0 \<le> objX u" "?i1 < length grid" "0 \<le> objY u" "?j1 < length (grid ! ?i1)"
    using isObject_place[OF ou] by simp_all
  have pv: "0 \<le> objX v" "?i2 < length grid" "0 \<le> objY v" "?j2 < length (grid ! ?i2)"
    using isObject_place[OF ov] by simp_all
  have lu: "loc u = (int ?i1, int ?j1)" and lv: "loc v = (int ?i2, int ?j2)"
    using pu pv by (simp_all add: loc_def)
  obtain b where b: "occupancy (loc u) (loc v) grid = Inr b" "length b = length grid"
    and cells: "\<forall>x<length grid. length (b ! x) = length (grid ! x)
          \<and> (\<forall>y<length (grid ! x).
                b ! x ! y = (if (x, y) = (?i1, ?j1) \<or> (x, y) = (?i2, ?j2) \<or> grid ! x ! y = ''.''
                              \<or> grid ! x ! y = ''A'' then 0 else 1))"
    using occupancy_in_range[OF pu(2,4) pv(2,4)] lu lv by auto
  have cells': "\<forall>x<length grid. length (b ! x) = length (grid ! x)
          \<and> (\<forall>y<length (grid ! x).
                b ! x ! y = (if (int x, int y) = loc u \<or> (int x, int y) = loc v
                               \<or> grid ! x ! y = ''.'' \<or> grid ! x ! y = ''A'' then 0 else 1))"
  proof -
    have e1: "\<And>x y. ((int x, int y) = loc u) = ((x, y) = (?i1, ?j1))"
      using lu by auto
    have e2: "\<And>x y. ((int x, int y) = loc v) = ((x, y) = (?i2, ?j2))"
      using lv by auto
    show ?thesis unfolding e1 e2 using cells by blast
  qed
  have others: "\<forall>w\<in>set objs. w \<noteq> u \<and> w \<noteq> v \<and> objIdentifier w \<noteq> ''A''
            \<longrightarrow> b ! nat (objX w) ! nat (objY w) = 1"
  proof (intro ballI impI)
    fix w assume w: "w \<in> set objs" and ne: "w \<noteq> u \<and> w \<noteq> v \<and> objIdentifier w \<noteq> ''A''"
    have ow: "isObject grid w" using findNonObstacles_set[OF assms(1)] w by simp
    let ?x = "nat (objX w)" and ?y = "nat (objY w)"
    have pw: "0 \<le> objX w" "?x < length grid" "0 \<le> objY w" "?y < length (grid ! ?x)"
      using isObject_place[OF ow] by simp_all
    have lw: "loc w = (int ?x, int ?y)" using pw by (simp add: loc_def)
    have nu: "loc w \<noteq> loc u" using isObject_same_tile[OF ow ou] ne by blast
    have nv: "loc w \<noteq> loc v" using isObject_same_tile[OF ow ov] ne by blast
    obtain t where t: "foundAt t grid w" "t = ''C'' \<or> t = ''SD''"
      using ow ne foundAt_place[of "''A''" grid w] by (auto simp: isObject_def)
    have pre: "take (length t) (grid ! ?x ! ?y) = t" using foundAt_place[OF t(1)] by simp
    have "grid ! ?x ! ?y \<noteq> ''.'' \<and> grid ! ?x ! ?y \<noteq> ''A''"
      using pre t(2) by auto
    moreover have "(int ?x, int ?y) \<noteq> loc u" "(int ?x, int ?y) \<noteq> loc v"
      using nu nv lw by simp_all
    moreover have "b ! ?x ! ?y = (if (int ?x, int ?y) = loc u \<or> (int ?x, int ?y) = loc v
                               \<or> grid ! ?x ! ?y = ''.'' \<or> grid ! ?x ! ?y = ''A'' then 0 else 1)"
      using cells' pw(2,4) by blast
    ultimately show "b ! ?x ! ?y = 1" by simp
  qed
  show ?thesis using b cells' others by blast
qed

theorem occupancy_blocks_other_objects_witness:
  "findNonObstacles [[''A'', ''C3''], [''C1'', ''#''], [''C2'', ''.'']]
     = Inr [Object ''A'' 0 0 0, Object ''C'' 0 1 3, Object ''C'' 1 0 1, Object ''C'' 2 0 2]
   \<and> occupancy (loc (Object ''C'' 1 0 1)) (loc (Object ''C'' 2 0 2))
        [[''A'', ''C3''], [''C1'', ''#''], [''C2'', ''.'']]
     = Inr [[0, 1], [0, 1], [0, 0]]
   \<and> (\<exists>b. occupancy (loc (Object ''C'' 1 0 1)) (loc (Object ''C'' 2 0 2))
              [[''A'', ''C3''], [''C1'', ''#''], [''C2'', ''.'']] = Inr b
          \<and> b ! nat (objX (Object ''C'' 0 1 3)) ! nat (objY (Object ''C'' 0 1 3)) = 1)"
proof -
  let ?g = "[[''A'', ''C3''], [''C1'', ''#''], [''C2'', ''.'']]"
  let ?objs = "[Object ''A'' 0 0 0, Object ''C'' 0 1 3, Object ''C'' 1 0 1, Object ''C'' 2 0 2]"
  have a: "findNonObstacles ?g = Inr ?objs" by code_simp
  have o: "occupancy (loc (Object ''C'' 1 0 1)) (loc (Object ''C'' 2 0 2)) ?g
     = Inr [[0, 1], [0, 1], [0, 0]]" by code_simp
  have u: "Object ''C'' 1 0 1 \<in> set ?objs" and v: "Object ''C'' 2 0 2 \<in> set ?objs"
    and w: "Object ''C'' 0 1 3 \<in> set ?objs" by simp_all
  obtain b where b: "occupancy (loc (Object ''C'' 1 0 1)) (loc (Object ''C'' 2 0 2)) ?g = Inr b"
    and ot: "\<forall>w\<in>set ?objs. w \<noteq> Object ''C'' 1 0 1 \<and> w \<noteq> Object ''C'' 2 0 2
               \<and> objIdentifier w \<noteq> ''A'' \<longrightarrow> b ! nat (objX w) ! nat (objY w) = 1"
    using occupancy_blocks_other_objects[OF a u v] by blast
  have "b ! nat (objX (Object ''C'' 0 1 3)) ! nat (objY (Object ''C'' 0 1 3)) = 1"
    using ot w by simp
  then show ?thesis using a o b by blast
qed

text \<open>
  C2 as stated fails for the Agent: in the row A C1 C2, the occupancy grid for the
  pair of the two coins is free at the Agent's tile, although the Agent is neither of
  them. getDist maps the tile A to 0 next to the empty tile.
\<close>

theorem occupancy_agent_tile_free:
  "findNonObstacles [[''A''], [''C1''], [''C2'']]
     = Inr [Object ''A'' 0 0 0, Object ''C'' 1 0 1, Object ''C'' 2 0 2]
   \<and> occupancy (loc (Object ''C'' 1 0 1)) (loc (Object ''C'' 2 0 2)) [[''A''], [''C1''], [''C2'']]
     = Inr [[0], [0], [0]]"
  by code_simp




text \<open>
  C5, as amended: parseEnv checks neither the Agents nor the tokens, and nothing
  raises a ConfigurationError. parseEnv fails only with ValueError, and succeeds exactly
  when \<open>int\<close> accepts the first line and all lines of the body have the same number of
  tokens. A grid of well-formed tokens with no Agent fails later, in getMScores, with
  IndexError, after the initial graph has been built. A grid of well-formed tokens with
  one Agent or more is not rejected: getMScores returns a table or raises OverflowError,
  and it returns a table when the default limit and the values of all time-extension
  devices add up to at most 2^53.
\<close>

theorem parseEnv_validates_nothing:
  "(parseEnv fileLines = Inl e \<longrightarrow> e = ValueError)
   \<and> ((\<exists>r. parseEnv (first # body) = Inr r) \<longleftrightarrow>
        (pyInt first \<noteq> None
         \<and> list_all (\<lambda>line. length (split line) = length (split (hd body))) body))
   \<and> (list_all (list_all wellFormedTile) grid \<and> ''A'' \<notin> set (concat grid) \<longrightarrow>
        getMScores grid defaultLimit = Inl IndexError \<and> (\<exists>ig. convertToGraph grid = Inr ig))
   \<and> (list_all (list_all wellFormedTile) grid \<and> ''A'' \<in> set (concat grid) \<longrightarrow>
        (\<exists>devices. findAll ''SD'' grid = Inr devices
           \<and> ((\<exists>table. getMScores grid defaultLimit = Inr table)
                \<or> getMScores grid defaultLimit = Inl OverflowError)
           \<and> (defaultLimit + sum_list (map objValue devices) \<le> 2 ^ 53
                \<longrightarrow> (\<exists>table. getMScores grid defaultLimit = Inr table))))"
proof -
  have "list_all (list_all wellFormedTile) grid \<and> ''A'' \<in> set (concat grid) \<longrightarrow>
        (\<exists>devices. findAll ''SD'' grid = Inr devices
           \<and> ((\<exists>table. getMScores grid defaultLimit = Inr table)
                \<or> getMScores grid defaultLimit = Inl OverflowError)
           \<and> (defaultLimit + sum_list (map objValue devices) \<le> 2 ^ 53
                \<longrightarrow> (\<exists>table. getMScores grid defaultLimit = Inr table)))"
  proof
    assume w: "list_all (list_all wellFormedTile) grid \<and> ''A'' \<in> set (concat grid)"
    then have t: "list_all (list_all wellFormedTile) grid" and a: "''A'' \<in> set (concat grid)"
      by blast+
    from getMScores_ok[OF t a, of defaultLimit]
    show "\<exists>devices. findAll ''SD'' grid = Inr devices
           \<and> ((\<exists>table. getMScores grid defaultLimit = Inr table)
                \<or> getMScores grid defaultLimit = Inl OverflowError)
           \<and> (defaultLimit + sum_list (map objValue devices) \<le> 2 ^ 53
                \<longrightarrow> (\<exists>table. getMScores grid defaultLimit = Inr table))"
      by blast
  qed
  then show ?thesis
    using parseEnv_error[of fileLines e] parseEnv_success[of first body]
      no_agent_IndexError[of grid defaultLimit] by blast
qed

theorem parseEnv_validates_nothing_witness:
  "parseEnv [''x\<newline>'', ''A .\<newline>''] = Inl ValueError
   \<and> parseEnv [''3\<newline>'', ''A .\<newline>'', ''C1\<newline>''] = Inl ValueError
   \<and> parseEnv [''3\<newline>'', ''. ? C1\<newline>''] = Inr (3, [[''.''], [''?''], [''C1'']])
   \<and> getMScores [[''.''], [''#''], [''C1'']] 3 = Inl IndexError
   \<and> findAll ''SD'' [[''A''], [''SD2''], [''A'']] = Inr [Object ''SD'' 1 0 2]
   \<and> (\<exists>table. getMScores [[''A''], [''SD2''], [''A'']] 3 = Inr table)"
proof -
  let ?g = "[[''A''], [''SD2''], [''A'']]"
  have a: "parseEnv [''x\<newline>'', ''A .\<newline>''] = Inl ValueError" by code_simp
  have b: "parseEnv [''3\<newline>'', ''A .\<newline>'', ''C1\<newline>''] = Inl ValueError" by code_simp
  have c: "parseEnv [''3\<newline>'', ''. ? C1\<newline>''] = Inr (3, [[''.''], [''?''], [''C1'']])" by code_simp
  have d: "list_all (list_all wellFormedTile) [[''.''], [''#''], [''C1'']]
             \<and> ''A'' \<notin> set (concat [[''.''], [''#''], [''C1'']])" by code_simp
  have w: "list_all (list_all wellFormedTile) ?g \<and> ''A'' \<in> set (concat ?g)" by code_simp
  have sd: "findAll ''SD'' ?g = Inr [Object ''SD'' 1 0 2]" by code_simp
  from parseEnv_validates_nothing[of "[''x\<newline>'', ''A .\<newline>'']" ValueError "''3\<newline>''" "[''. ? C1\<newline>'']"
         "[[''.''], [''#''], [''C1'']]" 3] d
  have d': "getMScores [[''.''], [''#''], [''C1'']] 3 = Inl IndexError" by blast
  from parseEnv_validates_nothing[of "[]" ValueError "''3\<newline>''" "[]" ?g 3] w
  obtain devices where dv: "findAll ''SD'' ?g = Inr devices"
    and e: "3 + sum_list (map objValue devices) \<le> 2 ^ 53
                \<longrightarrow> (\<exists>table. getMScores ?g 3 = Inr table)"
    by blast
  have "devices = [Object ''SD'' 1 0 2]" using dv sd by simp
  then have w': "\<exists>table. getMScores ?g 3 = Inr table" using e by simp
  show ?thesis using a b c d' sd w' by blast
qed

text \<open>
  C5 as stated fails: an input with two Agents is parsed without an error, and the
  search on it returns a table.
\<close>

theorem two_agents_no_error:
  "parseEnv [''3\<newline>'', ''A A\<newline>''] = Inr (3, [[''A''], [''A'']])
   \<and> getMScores [[''A''], [''A'']] 3 = Inr [(PInt 3, 0, [Object ''A'' 0 0 0])]"
  by code_simp

end
